theory Spec2Isabelle
  imports Main "HOL-Library.AList" "HOL-Library.DAList"
begin

section \<open>Python dictionaries\<close>

text \<open>
  A Python \<^verbatim>\<open>dict\<close> is an association list with unique keys, kept in insertion
  order: \<^verbatim>\<open>d.get(k, default)\<close> is \<open>dict_get\<close>, \<^verbatim>\<open>d[k] = v\<close> is
  \<open>DAList.update k v d\<close> (an existing key keeps its place, a new key goes to the end),
  \<^verbatim>\<open>k in d\<close> is \<open>dict_in\<close>, \<^verbatim>\<open>d.items()\<close> is \<open>items\<close> and a comprehension
  \<^verbatim>\<open>{k: v for ...}\<close> inserts its pairs one after the other into an empty dict.
\<close>

type_synonym ('k, 'v) dict = "('k, 'v) alist"

definition dict_get :: "('k, 'v) dict \<Rightarrow> 'k \<Rightarrow> 'v \<Rightarrow> 'v" where
  "dict_get d k dflt = (case DAList.lookup d k of None \<Rightarrow> dflt | Some v \<Rightarrow> v)"

definition dict_in :: "'k \<Rightarrow> ('k, 'v) dict \<Rightarrow> bool" where
  "dict_in k d = (DAList.lookup d k \<noteq> None)"

definition items :: "('k, 'v) dict \<Rightarrow> ('k \<times> 'v) list" where
  "items d = DAList.impl_of d"

definition keys :: "('k, 'v) dict \<Rightarrow> 'k list" where
  "keys d = map fst (DAList.impl_of d)"

fun dict_insert_all :: "('k, 'v) dict \<Rightarrow> ('k \<times> 'v) list \<Rightarrow> ('k, 'v) dict" where
  "dict_insert_all d [] = d"
| "dict_insert_all d ((k, v) # rest) = dict_insert_all (DAList.update k v d) rest"

definition dict_of :: "('k \<times> 'v) list \<Rightarrow> ('k, 'v) dict" where
  "dict_of kvs = dict_insert_all DAList.empty kvs"

text \<open>The exceptions that the modelled code can raise.\<close>

datatype py_error = ValueError | IndexError | TypeError | OSError | FileNotFoundError

section \<open>The builtins \<^verbatim>\<open>str\<close> and \<^verbatim>\<open>int\<close> on node ids\<close>

text \<open>
  \<^verbatim>\<open>str(k)\<close> of an integer is its decimal numeral, with a leading minus sign when
  negative. \<^verbatim>\<open>int(s)\<close> of a string strips surrounding whitespace, reads an optional
  sign and then decimal digits, where single underscores may stand between digits;
  anything else raises \<^verbatim>\<open>ValueError\<close>. Strings are ASCII here, as JSON object keys
  written by \<^verbatim>\<open>str\<close> are.
\<close>

definition char_of_digit :: "nat \<Rightarrow> char" where
  "char_of_digit d = ''0123456789'' ! d"

definition digit_of_char :: "char \<Rightarrow> nat option" where
  "digit_of_char c =
     (let code = (of_char c :: nat)
      in if 48 \<le> code \<and> code \<le> 57 then Some (code - 48) else None)"

function str_nat :: "nat \<Rightarrow> string" where
  "str_nat n =
     (if n < 10 then [char_of_digit n]
      else str_nat (n div 10) @ [char_of_digit (n mod 10)])"
  by pat_completeness auto
termination
  by (relation "measure (\<lambda>n. n)") auto

declare str_nat.simps [simp del]

definition py_str :: "int \<Rightarrow> string" where
  "py_str i = (if i < 0 then CHR ''-'' # str_nat (nat (- i)) else str_nat (nat i))"

definition is_space :: "char \<Rightarrow> bool" where
  "is_space c = (c \<in> set [CHR '' '', CHR 0x09, CHR 0x0A, CHR 0x0B, CHR 0x0C, CHR 0x0D])"

definition strip :: "string \<Rightarrow> string" where
  "strip s = rev (dropWhile is_space (rev (dropWhile is_space s)))"

fun parse_digits :: "nat \<Rightarrow> string \<Rightarrow> nat option" where
  "parse_digits acc [] = Some acc"
| "parse_digits acc (c # cs) =
     (if c = CHR ''_'' then
        (case cs of
           [] \<Rightarrow> None
         | d # ds \<Rightarrow>
             (case digit_of_char d of
                None \<Rightarrow> None
              | Some x \<Rightarrow> parse_digits (acc * 10 + x) ds))
      else
        (case digit_of_char c of
           None \<Rightarrow> None
         | Some x \<Rightarrow> parse_digits (acc * 10 + x) cs))"

definition parse_nat :: "string \<Rightarrow> nat option" where
  "parse_nat s =
     (case s of
        [] \<Rightarrow> None
      | c # cs \<Rightarrow>
          (case digit_of_char c of
             None \<Rightarrow> None
           | Some x \<Rightarrow> parse_digits x cs))"

definition py_int :: "string \<Rightarrow> py_error + int" where
  "py_int s =
     (let t = strip s;
          (negative, body) =
            (case t of
               [] \<Rightarrow> (False, t)
             | c # cs \<Rightarrow>
                 if c = CHR ''-'' then (True, cs)
                 else if c = CHR ''+'' then (False, cs)
                 else (False, t))
      in case parse_nat body of
           None \<Rightarrow> Inl ValueError
         | Some n \<Rightarrow> Inr (if negative then - int n else int n))"

section \<open>Vector clocks (consistency/vector\_clock.py)\<close>

text \<open>
  \<^verbatim>\<open>VectorClock.clock\<close> is a \<^verbatim>\<open>Dict[int, int]\<close> from node id to timestamp; both are
  Python integers. The methods mutate \<^verbatim>\<open>self\<close> and return it; here they return the
  new clock.
\<close>

type_synonym vector_clock = "(int, int) dict"

text \<open>
  The constructor rebuilds the dictionary with \<^verbatim>\<open>{int(k): v for k, v in clock.items()}\<close>;
  on a key that is an integer already \<^verbatim>\<open>int(k)\<close> is \<open>k\<close>.
\<close>

definition VectorClock :: "(int, int) dict \<Rightarrow> vector_clock" where
  "VectorClock clock = dict_of (map (\<lambda>(k, v). (k, v)) (items clock))"

definition increment :: "vector_clock \<Rightarrow> int \<Rightarrow> vector_clock" where
  "increment self node_id = DAList.update node_id (dict_get self node_id 0 + 1) self"

fun update_loop :: "vector_clock \<Rightarrow> (int \<times> int) list \<Rightarrow> vector_clock" where
  "update_loop self [] = self"
| "update_loop self ((node_id, timestamp) # rest) =
     update_loop (DAList.update node_id (max (dict_get self node_id 0) timestamp) self) rest"

definition update :: "vector_clock \<Rightarrow> vector_clock \<Rightarrow> vector_clock" where
  "update self other = update_loop self (items other)"

definition merge :: "vector_clock \<Rightarrow> vector_clock \<Rightarrow> int \<Rightarrow> vector_clock" where
  "merge self other node_id = increment (update self other) node_id"


text \<open>
  \<^verbatim>\<open>all_nodes = set(self.clock.keys()) | set(other.clock.keys())\<close>: the loops below
  run over the keys of both clocks, each once. Python fixes no order for a set; the
  model takes the keys of \<open>self\<close> first.
\<close>

definition all_nodes_of :: "vector_clock \<Rightarrow> vector_clock \<Rightarrow> int list" where
  "all_nodes_of self other = remdups (keys self @ keys other)"

text \<open>
  The loop of \<^verbatim>\<open>happens_before\<close> carries the two flags
  \<^verbatim>\<open>(all_less_or_equal, at_least_one_less)\<close>; \<^verbatim>\<open>break\<close> leaves it at once.
\<close>

fun happens_before_loop ::
  "vector_clock \<Rightarrow> vector_clock \<Rightarrow> int list \<Rightarrow> bool \<Rightarrow> bool \<times> bool" where
  "happens_before_loop self other [] at_least_one_less = (True, at_least_one_less)"
| "happens_before_loop self other (node_id # rest) at_least_one_less =
     (let self_val = dict_get self node_id 0;
          other_val = dict_get other node_id 0
      in if self_val > other_val then (False, at_least_one_less)
         else if self_val < other_val then happens_before_loop self other rest True
         else happens_before_loop self other rest at_least_one_less)"

definition happens_before :: "vector_clock \<Rightarrow> vector_clock \<Rightarrow> bool" where
  "happens_before self other =
     (case happens_before_loop self other (all_nodes_of self other) False of
        (all_less_or_equal, at_least_one_less) \<Rightarrow> all_less_or_equal \<and> at_least_one_less)"

definition concurrent_with :: "vector_clock \<Rightarrow> vector_clock \<Rightarrow> bool" where
  "concurrent_with self other =
     (\<not> happens_before self other \<and> \<not> happens_before other self)"

fun dominates_loop :: "vector_clock \<Rightarrow> vector_clock \<Rightarrow> int list \<Rightarrow> bool" where
  "dominates_loop self other [] = True"
| "dominates_loop self other (node_id # rest) =
     (if dict_get self node_id 0 < dict_get other node_id 0 then False
      else dominates_loop self other rest)"

definition dominates :: "vector_clock \<Rightarrow> vector_clock \<Rightarrow> bool" where
  "dominates self other = dominates_loop self other (all_nodes_of self other)"

text \<open>\<^verbatim>\<open>__eq__\<close> between two vector clocks.\<close>

fun eq_loop :: "vector_clock \<Rightarrow> vector_clock \<Rightarrow> int list \<Rightarrow> bool" where
  "eq_loop self other [] = True"
| "eq_loop self other (node_id # rest) =
     (if dict_get self node_id 0 \<noteq> dict_get other node_id 0 then False
      else eq_loop self other rest)"

definition vc_eq :: "vector_clock \<Rightarrow> vector_clock \<Rightarrow> bool" where
  "vc_eq self other = eq_loop self other (all_nodes_of self other)"

text \<open>\<^verbatim>\<open>__gt__\<close>: \<^verbatim>\<open>version > current_version\<close> is \<^verbatim>\<open>current_version.happens_before(version)\<close>.\<close>

definition vc_gt :: "vector_clock \<Rightarrow> vector_clock \<Rightarrow> bool" where
  "vc_gt self other = happens_before other self"

text \<open>
  \<^verbatim>\<open>to_dict\<close> writes the keys with \<^verbatim>\<open>str\<close>; \<^verbatim>\<open>from_dict\<close> reads them back with
  \<^verbatim>\<open>int\<close>, key by key, and raises at the first key that is no integer. It then
  hands the dictionary to the constructor.
\<close>

definition to_dict :: "vector_clock \<Rightarrow> (string, int) dict" where
  "to_dict self = dict_of (map (\<lambda>(k, v). (py_str k, v)) (items self))"

fun int_keys :: "(string \<times> int) list \<Rightarrow> py_error + (int \<times> int) list" where
  "int_keys [] = Inr []"
| "int_keys ((k, v) # rest) =
     (case py_int k of
        Inl e \<Rightarrow> Inl e
      | Inr i \<Rightarrow>
          (case int_keys rest of
             Inl e \<Rightarrow> Inl e
           | Inr kvs \<Rightarrow> Inr ((i, v) # kvs)))"

definition from_dict :: "(string, int) dict \<Rightarrow> py_error + vector_clock" where
  "from_dict data =
     (case int_keys (items data) of
        Inl e \<Rightarrow> Inl e
      | Inr kvs \<Rightarrow> Inr (VectorClock (dict_of kvs)))"

text \<open>
  \<^verbatim>\<open>get_latest_version\<close>: the inner loop decides whether \<open>v\<close> is dominated, the
  outer loop collects the versions that are not.
\<close>

fun is_dominated :: "vector_clock \<Rightarrow> vector_clock list \<Rightarrow> bool" where
  "is_dominated v [] = False"
| "is_dominated v (other # rest) =
     (if happens_before other v then is_dominated v rest
      else if happens_before v other then True
      else is_dominated v rest)"

fun collect_candidates :: "vector_clock list \<Rightarrow> vector_clock list \<Rightarrow> vector_clock list" where
  "collect_candidates versions [] = []"
| "collect_candidates versions (v # rest) =
     (if \<not> is_dominated v versions then v # collect_candidates versions rest
      else collect_candidates versions rest)"

definition get_latest_version :: "vector_clock list \<Rightarrow> vector_clock option" where
  "get_latest_version versions =
     (if versions = [] then None
      else if length versions = 1 then Some (versions ! 0)
      else
        (let candidates = collect_candidates versions versions
         in if length candidates = 1 then Some (candidates ! 0) else None))"

section \<open>Local storage (chord/storage.py)\<close>

text \<open>
  \<^verbatim>\<open>ChordStorage\<close> holds the primary store, key to (value, version), and the backup
  store, primary node id to key to (value, version). The legacy attribute
  \<^verbatim>\<open>store\<close> is the primary store itself. With \<^verbatim>\<open>enable_persistence\<close> the constructor
  sets \<^verbatim>\<open>primary_dir\<close> and \<^verbatim>\<open>backup_dir\<close> to \<^verbatim>\<open><base_dir>/node_<id>/primary\<close> and
  \<^verbatim>\<open><base_dir>/node_<id>/backup\<close>, and every write is mirrored to one file per key.

  The file system belongs to the operating system: whether a call to it succeeds is
  not decided by the program. A storage therefore carries the answer of the operating
  system to its \<open>i\<close>-th file-system call, \<open>None\<close> when the call succeeds and the exception
  it raises otherwise (\<open>fs_answers\<close>), and the calls made so far, each with its answer
  (\<open>fs_calls\<close>). A path is the string handed to the operating system, which resolves it.
\<close>

type_synonym 'v bucket = "(string, 'v \<times> vector_clock) dict"

text \<open>The dictionary that \<^verbatim>\<open>json.dump\<close> writes to the file of a key.\<close>

record 'v saved =
  saved_key :: string
  saved_value :: 'v
  saved_version :: "(string, int) dict"
  saved_type :: string
  saved_primary_node_id :: "int option"

text \<open>
  \<^verbatim>\<open>os.makedirs(path, exist_ok=True)\<close>, and \<^verbatim>\<open>with open(path, 'w') as f: json.dump(data, f)\<close>,
  which raises when opening, writing or closing the file does.
\<close>

datatype 'v fs_call = Makedirs string | Write_json string "'v saved"

record 'v ChordStorage =
  storage_node_id :: int
  enable_persistence :: bool
  primary_dir :: string
  backup_dir :: string
  primary_store :: "'v bucket"
  backup_store :: "(int, 'v bucket) dict"
  fs_answers :: "nat \<Rightarrow> py_error option"
  fs_calls :: "('v fs_call \<times> py_error option) list"

definition do_fs_call :: "'v ChordStorage \<Rightarrow> 'v fs_call \<Rightarrow> 'v ChordStorage \<times> py_error option" where
  "do_fs_call self call =
     (let answer = fs_answers self (length (fs_calls self))
      in (self\<lparr>fs_calls := fs_calls self @ [(call, answer)]\<rparr>, answer))"

text \<open>\<^verbatim>\<open>os.path.join(a, b)\<close> on POSIX: an absolute \<open>b\<close> discards \<open>a\<close>.\<close>

definition path_join :: "string \<Rightarrow> string \<Rightarrow> string" where
  "path_join a b =
     (if b \<noteq> [] \<and> hd b = CHR ''/'' then b
      else if a = [] \<or> last a = CHR ''/'' then a @ b
      else a @ ''/'' @ b)"

text \<open>
  \<^verbatim>\<open>_save_primary\<close> and \<^verbatim>\<open>_save_backup\<close>: the storage afterwards, and the exception raised,
  if any. The key goes into the file name as it is.
\<close>

definition save_primary ::
  "'v ChordStorage \<Rightarrow> string \<Rightarrow> 'v \<Rightarrow> vector_clock \<Rightarrow> 'v ChordStorage \<times> py_error option" where
  "save_primary self key val version =
     (if \<not> enable_persistence self then (self, None)
      else
        (let key_file = path_join (primary_dir self) (key @ ''.txt'')
         in do_fs_call self
              (Write_json key_file
                 \<lparr>saved_key = key, saved_value = val, saved_version = to_dict version,
                  saved_type = ''primary'', saved_primary_node_id = None\<rparr>)))"

definition save_backup ::
  "'v ChordStorage \<Rightarrow> string \<Rightarrow> 'v \<Rightarrow> vector_clock \<Rightarrow> int \<Rightarrow> 'v ChordStorage \<times> py_error option" where
  "save_backup self key val version for_node_id =
     (if \<not> enable_persistence self then (self, None)
      else
        (let node_backup_dir = path_join (backup_dir self) (''node_'' @ py_str for_node_id)
         in case do_fs_call self (Makedirs node_backup_dir) of
              (self, Some e) \<Rightarrow> (self, Some e)
            | (self, None) \<Rightarrow>
                (let key_file = path_join node_backup_dir (key @ ''.txt'')
                 in do_fs_call self
                      (Write_json key_file
                         \<lparr>saved_key = key, saved_value = val, saved_version = to_dict version,
                          saved_type = ''backup'',
                          saved_primary_node_id = Some for_node_id\<rparr>))))"

text \<open>
  \<^verbatim>\<open>put\<close> and \<^verbatim>\<open>put_backup\<close> write the store in memory first and the file second: when
  the file write raises, the exception leaves the method with the store already written.
  The result is the storage afterwards and the version returned or the exception raised.
\<close>

definition put ::
  "'v ChordStorage \<Rightarrow> string \<Rightarrow> 'v \<Rightarrow> vector_clock option
     \<Rightarrow> 'v ChordStorage \<times> (py_error + vector_clock)" where
  "put self key val version_arg =
     (let version =
            (case version_arg of
               Some version \<Rightarrow> version
             | None \<Rightarrow>
                 (case DAList.lookup (primary_store self) key of
                    Some (_, old_version) \<Rightarrow>
                      increment (VectorClock old_version) (storage_node_id self)
                  | None \<Rightarrow> increment (VectorClock DAList.empty) (storage_node_id self)));
          self = self\<lparr>primary_store := DAList.update key (val, version) (primary_store self)\<rparr>
      in if enable_persistence self
         then (case save_primary self key val version of
                 (self, Some e) \<Rightarrow> (self, Inl e)
               | (self, None) \<Rightarrow> (self, Inr version))
         else (self, Inr version))"

definition put_backup ::
  "'v ChordStorage \<Rightarrow> string \<Rightarrow> 'v \<Rightarrow> vector_clock \<Rightarrow> int
     \<Rightarrow> 'v ChordStorage \<times> (py_error + vector_clock)" where
  "put_backup self key val version for_node_id =
     (let bucket =
            (case DAList.lookup (backup_store self) for_node_id of
               None \<Rightarrow> DAList.empty
             | Some b \<Rightarrow> b);
          self = self\<lparr>backup_store :=
                        DAList.update for_node_id (DAList.update key (val, version) bucket)
                          (backup_store self)\<rparr>
      in if enable_persistence self
         then (case save_backup self key val version for_node_id of
                 (self, Some e) \<Rightarrow> (self, Inl e)
               | (self, None) \<Rightarrow> (self, Inr version))
         else (self, Inr version))"

definition get_backup ::
  "'v ChordStorage \<Rightarrow> string \<Rightarrow> int \<Rightarrow> ('v \<times> vector_clock) option" where
  "get_backup self key for_node_id =
     (case DAList.lookup (backup_store self) for_node_id of
        Some bucket \<Rightarrow> DAList.lookup bucket key
      | None \<Rightarrow> None)"

text \<open>
  \<^verbatim>\<open>transfer_backups_to_primary\<close> writes the primary store and the file of a key in both
  of its promoting branches (\<open>promote_entry\<close>); its loop runs over the items of the
  bucket and stops at the first file write that raises, which leaves the method before
  the bucket is deleted.
\<close>

definition promote_entry ::
  "'v ChordStorage \<Rightarrow> string \<Rightarrow> 'v \<Rightarrow> vector_clock \<Rightarrow> 'v ChordStorage \<times> py_error option" where
  "promote_entry self key val version =
     (let self = self\<lparr>primary_store := DAList.update key (val, version) (primary_store self)\<rparr>
      in if enable_persistence self then save_primary self key val version else (self, None))"

fun promote_loop ::
  "'v ChordStorage \<Rightarrow> (string \<times> 'v \<times> vector_clock) list \<Rightarrow> 'v ChordStorage \<times> py_error option" where
  "promote_loop self [] = (self, None)"
| "promote_loop self ((key, val, version) # rest) =
     (case DAList.lookup (primary_store self) key of
        None \<Rightarrow>
          (case promote_entry self key val version of
             (self, Some e) \<Rightarrow> (self, Some e)
           | (self, None) \<Rightarrow> promote_loop self rest)
      | Some (_, current_version) \<Rightarrow>
          if vc_gt version current_version
          then (case promote_entry self key val version of
                  (self, Some e) \<Rightarrow> (self, Some e)
                | (self, None) \<Rightarrow> promote_loop self rest)
          else promote_loop self rest)"

definition transfer_backups_to_primary ::
  "'v ChordStorage \<Rightarrow> int \<Rightarrow> 'v ChordStorage \<times> py_error option" where
  "transfer_backups_to_primary self for_node_id =
     (case DAList.lookup (backup_store self) for_node_id of
        None \<Rightarrow> (self, None)
      | Some bucket \<Rightarrow>
          (case promote_loop self (items bucket) of
             (self, Some e) \<Rightarrow> (self, Some e)
           | (self, None) \<Rightarrow>
               (self\<lparr>backup_store := DAList.delete for_node_id (backup_store self)\<rparr>, None)))"

section \<open>The PUT\_REPLICA handler (main.py)\<close>




section \<open>Ring view (chord/routing.py)\<close>

text \<open>\<^verbatim>\<open>NodeInfo.__eq__\<close> compares the node ids only.\<close>

record NodeInfo =
  node_id :: int
  address :: string

definition node_eq :: "NodeInfo \<Rightarrow> NodeInfo \<Rightarrow> bool" where
  "node_eq a b = (node_id a = node_id b)"

record FingerTable =
  ft_node_id :: int
  m :: nat
  fingers :: "NodeInfo option list"
  all_nodes :: "NodeInfo list"

definition max_id :: "FingerTable \<Rightarrow> int" where
  "max_id self = 2 ^ m self"

fun first_at_or_after :: "NodeInfo list \<Rightarrow> int \<Rightarrow> NodeInfo option" where
  "first_at_or_after [] identifier = None"
| "first_at_or_after (node # rest) identifier =
     (if node_id node \<ge> identifier then Some node else first_at_or_after rest identifier)"

definition find_successor_from_all :: "FingerTable \<Rightarrow> int \<Rightarrow> NodeInfo option" where
  "find_successor_from_all self identifier =
     (case all_nodes self of
        [] \<Rightarrow> None
      | first # _ \<Rightarrow>
          (case first_at_or_after (all_nodes self) identifier of
             Some node \<Rightarrow> Some node
           | None \<Rightarrow> Some first))"

text \<open>\<^verbatim>\<open>list.index\<close>: the first position holding an equal element, or \<^verbatim>\<open>ValueError\<close>.\<close>

fun index_of :: "NodeInfo list \<Rightarrow> NodeInfo \<Rightarrow> nat option" where
  "index_of [] x = None"
| "index_of (y # ys) x =
     (if node_eq y x then Some 0
      else (case index_of ys x of None \<Rightarrow> None | Some i \<Rightarrow> Some (Suc i)))"

definition get_n_successors :: "FingerTable \<Rightarrow> int \<Rightarrow> int \<Rightarrow> NodeInfo list" where
  "get_n_successors self identifier n =
     (if all_nodes self = [] \<or> n \<le> 0 then []
      else
        (case find_successor_from_all self identifier of
           None \<Rightarrow> []
         | Some responsible \<Rightarrow>
             (case index_of (all_nodes self) responsible of
                None \<Rightarrow> [responsible]
              | Some start_idx \<Rightarrow>
                  (let num_nodes = length (all_nodes self)
                   in map (\<lambda>i. all_nodes self ! ((start_idx + i) mod num_nodes))
                        [0 ..< min (nat n) num_nodes]))))"

section \<open>Quorum reads (consistency/quorum.py)\<close>

text \<open>
  \<^verbatim>\<open>quorum_get\<close> awaits \<^verbatim>\<open>replicate_get\<close> under a timeout: the outcome is the list of
  reads \<^verbatim>\<open>(node, value, version)\<close> or \<^verbatim>\<open>asyncio.TimeoutError\<close>. The result is what the
  call returns, the replicas it found stale, and the replicas handed to
  \<^verbatim>\<open>repair_replicas\<close>, which sends one PUT\_REPLICA to each of them.
\<close>

record QuorumManager =
  quorum_node_id :: int
  n_replicas :: int
  read_quorum :: int
  write_quorum :: int
  enable_read_repair :: bool

datatype 'a awaited = Returned 'a | TimeoutError

type_synonym 'v read = "NodeInfo \<times> 'v \<times> vector_clock"

fun stale_loop ::
  "'v read list \<Rightarrow> vector_clock \<Rightarrow> 'v option \<Rightarrow> NodeInfo list \<Rightarrow> 'v option \<times> NodeInfo list" where
  "stale_loop [] latest_version latest_value stale_replicas = (latest_value, stale_replicas)"
| "stale_loop ((node, val, version) # rest) latest_version latest_value stale_replicas =
     (if vc_eq version latest_version
      then stale_loop rest latest_version (Some val) stale_replicas
      else stale_loop rest latest_version latest_value (stale_replicas @ [node]))"

record 'v quorum_get_result =
  returned :: "('v option \<times> vector_clock) option"
  stale :: "NodeInfo list"
  repaired :: "NodeInfo list"

definition quorum_get ::
  "QuorumManager \<Rightarrow> NodeInfo list \<Rightarrow> 'v read list awaited \<Rightarrow> py_error + 'v quorum_get_result" where
  "quorum_get self replicas outcome =
     (if replicas = [] then Inr \<lparr>returned = None, stale = [], repaired = []\<rparr>
      else
        (case outcome of
           TimeoutError \<Rightarrow> Inr \<lparr>returned = None, stale = [], repaired = []\<rparr>
         | Returned reads \<Rightarrow>
             if int (length reads) < read_quorum self
             then Inr \<lparr>returned = None, stale = [], repaired = []\<rparr>
             else
               (let versions = map (\<lambda>(_, _, version). version) reads
                in case (case get_latest_version versions of
                           Some latest \<Rightarrow> Inr latest
                         | None \<Rightarrow>
                             (case versions of
                                [] \<Rightarrow> Inl IndexError
                              | first # _ \<Rightarrow> Inr first)) of
                     Inl e \<Rightarrow> Inl e
                   | Inr latest_version \<Rightarrow>
                       (case stale_loop reads latest_version None [] of
                          (latest_value, stale_replicas) \<Rightarrow>
                            Inr \<lparr>returned = Some (latest_value, latest_version),
                                 stale = stale_replicas,
                                 repaired =
                                   (if enable_read_repair self \<and> stale_replicas \<noteq> []
                                    then stale_replicas else [])\<rparr>))))"

section \<open>Message dispatch (communication/message.py, communication/network.py)\<close>

datatype MessageType =
    FIND_SUCCESSOR | FIND_SUCCESSOR_REPLY | GET_PREDECESSOR | GET_PREDECESSOR_REPLY
  | GET_SUCCESSOR_LIST | GET_SUCCESSOR_LIST_REPLY | NOTIFY | NOTIFY_ACK | STABILIZE
  | PUT | PUT_REPLY | GET | GET_REPLY | DELETE | DELETE_REPLY
  | PUT_REPLICA | PUT_REPLICA_ACK | PUT_REPLICA_REPLY | GET_REPLICA | GET_REPLICA_REPLY
  | JOIN | LEAVE | PING | PONG
  | BROADCAST_JOIN | BROADCAST_JOIN_ACK | TRANSFER_KEYS_REQUEST | TRANSFER_KEYS_RESPONSE
  | GET_ALL_NODES | GET_ALL_NODES_REPLY
  | RECOVER_HANDOFF | RECOVER_HANDOFF_REPLY | UPDATE_BACKUP | UPDATE_BACKUP_ACK
  | GET_ALL_KEYS | GET_ALL_KEYS_REPLY | GET_RING_INFO | GET_RING_INFO_REPLY
  | ERROR

text \<open>The values of a message's \<^verbatim>\<open>data\<close> dictionary: a string, or anything else.\<close>

datatype 'a any = Str string | Obj 'a

record 'a Message =
  msg_type :: MessageType
  sender_id :: int
  sender_address :: string
  msg_id :: string
  data :: "(string, 'a any) dict"

definition create_error_msg :: "int \<Rightarrow> string \<Rightarrow> string \<Rightarrow> string \<Rightarrow> 'a Message" where
  "create_error_msg sender sender_addr error mid =
     \<lparr>msg_type = ERROR, sender_id = sender, sender_address = sender_addr, msg_id = mid,
      data = dict_of [(''error'', Str error)]\<rparr>"

text \<open>
  A handler is awaited on the message; it returns a response (or \<^verbatim>\<open>None\<close>) or raises
  an \<^verbatim>\<open>Exception\<close> \<open>e\<close>, of which the dispatcher uses \<^verbatim>\<open>str(e)\<close>. A pending request
  is a future waiting for the reply with its message id; \<^verbatim>\<open>set_result\<close> hands the
  reply to it.
\<close>

datatype 'a handler_outcome = Returns "'a Message option" | Raises string

record 'a NetworkManager =
  network_node_id :: int
  network_address :: string
  handlers :: "(MessageType, 'a Message \<Rightarrow> 'a handler_outcome) dict"
  pending :: "(string, unit) dict"

record 'a dispatched =
  manager :: "'a NetworkManager"
  reply :: "'a Message option"
  future_result :: "(string \<times> 'a Message) option"

definition dispatch_message :: "'a NetworkManager \<Rightarrow> 'a Message \<Rightarrow> 'a dispatched" where
  "dispatch_message self msg =
     (if dict_in (msg_id msg) (pending self)
      then \<lparr>manager = self\<lparr>pending := DAList.delete (msg_id msg) (pending self)\<rparr>,
            reply = None,
            future_result = Some (msg_id msg, msg)\<rparr>
      else
        (case DAList.lookup (handlers self) (msg_type msg) of
           Some handler \<Rightarrow>
             (case handler msg of
                Returns response \<Rightarrow>
                  \<lparr>manager = self, reply = response, future_result = None\<rparr>
              | Raises e \<Rightarrow>
                  \<lparr>manager = self,
                   reply = Some (create_error_msg (network_node_id self)
                                      (network_address self) e (msg_id msg)),
                   future_result = None\<rparr>)
         | None \<Rightarrow> \<lparr>manager = self, reply = None, future_result = None\<rparr>))"

section \<open>Notions used to state the properties\<close>

text \<open>
  The version a key has in the primary store before an operation, the empty clock when
  the key is absent; likewise for a backup held for a primary.
\<close>

definition prior_version :: "'v ChordStorage \<Rightarrow> string \<Rightarrow> vector_clock" where
  "prior_version self key =
     (case DAList.lookup (primary_store self) key of
        None \<Rightarrow> DAList.empty
      | Some (_, old_version) \<Rightarrow> old_version)"


text \<open>
  A run of calls \<^verbatim>\<open>put(key, value)\<close> with no version, where the caller goes on after a
  call that raised; each call is listed with its key and what it returned or raised.
  \<open>versions_of\<close> are the versions returned for one key, in the order of the calls.
\<close>

fun put_all ::
  "'v ChordStorage \<Rightarrow> (string \<times> 'v) list
     \<Rightarrow> 'v ChordStorage \<times> (string \<times> (py_error + vector_clock)) list" where
  "put_all self [] = (self, [])"
| "put_all self ((key, val) # rest) =
     (case put self key val None of
        (self', outcome) \<Rightarrow>
          (case put_all self' rest of
             (self'', outcomes) \<Rightarrow> (self'', (key, outcome) # outcomes)))"

fun versions_of :: "string \<Rightarrow> (string \<times> (py_error + vector_clock)) list \<Rightarrow> vector_clock list" where
  "versions_of key [] = []"
| "versions_of key ((k, Inl e) # rest) = versions_of key rest"
| "versions_of key ((k, Inr version) # rest) =
     (if k = key then version # versions_of key rest else versions_of key rest)"

text \<open>
  What the file system answers to the write of \<^verbatim>\<open>_save_primary\<close> and to the two calls
  of \<^verbatim>\<open>_save_backup\<close> in a state: \<open>None\<close> when persistence is off or the calls succeed,
  the exception raised otherwise. \<open>writes_succeed\<close>: no file-system call from now on
  raises.
\<close>

definition save_primary_answer :: "'v ChordStorage \<Rightarrow> py_error option" where
  "save_primary_answer self =
     (if enable_persistence self then fs_answers self (length (fs_calls self)) else None)"

definition save_backup_answer :: "'v ChordStorage \<Rightarrow> py_error option" where
  "save_backup_answer self =
     (if enable_persistence self
      then (case fs_answers self (length (fs_calls self)) of
              Some e \<Rightarrow> Some e
            | None \<Rightarrow> fs_answers self (Suc (length (fs_calls self))))
      else None)"

definition writes_succeed :: "'v ChordStorage \<Rightarrow> bool" where
  "writes_succeed self =
     (\<not> enable_persistence self \<or> (\<forall>i \<ge> length (fs_calls self). fs_answers self i = None))"


text \<open>The versions returned by the replicas, and the replicas whose version satisfies a predicate.\<close>

definition versions_of_reads :: "'v read list \<Rightarrow> vector_clock list" where
  "versions_of_reads reads = map (\<lambda>(_, _, version). version) reads"

definition replicas_where :: "(vector_clock \<Rightarrow> bool) \<Rightarrow> 'v read list \<Rightarrow> NodeInfo list" where
  "replicas_where P reads = map fst (filter (\<lambda>(_, _, version). P version) reads)"

text \<open>
  The clockwise distance from an identifier to a node on the ring of \<open>2^m\<close> identifiers, and
  the ring view a node keeps: sorted by node id, ids distinct and inside the identifier space.
\<close>

definition ring_distance :: "FingerTable \<Rightarrow> int \<Rightarrow> NodeInfo \<Rightarrow> int" where
  "ring_distance self identifier node = (node_id node - identifier) mod max_id self"

definition ring_view :: "FingerTable \<Rightarrow> bool" where
  "ring_view self =
     (sorted (map node_id (all_nodes self))
      \<and> distinct (map node_id (all_nodes self))
      \<and> list_all (\<lambda>node. 0 \<le> node_id node \<and> node_id node < max_id self) (all_nodes self))"

section \<open>Sample states\<close>

text \<open>Concrete stores, rings and messages on which the theorems below are run.\<close>

definition node50 :: "string ChordStorage" where
  "node50 =
     \<lparr>storage_node_id = 50, enable_persistence = True,
      primary_dir = ''storage/node_50/primary'', backup_dir = ''storage/node_50/backup'',
      primary_store = dict_of [(''a'', (''x'', dict_of [(50, 1)]))],
      backup_store = dict_of [(35, dict_of [(''b'', (''y'', dict_of [(35, 1)]))])],
      fs_answers = (\<lambda>i. None), fs_calls = []\<rparr>"

text \<open>
  The same node when the operating system finds no directory to put the file in, as it
  does for the key \<^verbatim>\<open>a/b\<close>, whose file would lie in a directory \<^verbatim>\<open>primary/a\<close>.
\<close>

definition node50_no_directory :: "string ChordStorage" where
  "node50_no_directory = node50\<lparr>fs_answers := (\<lambda>i. Some FileNotFoundError)\<rparr>"

definition node50_fresh :: "string ChordStorage" where
  "node50_fresh =
     \<lparr>storage_node_id = 50, enable_persistence = False,
      primary_dir = [], backup_dir = [],
      primary_store = DAList.empty, backup_store = DAList.empty,
      fs_answers = (\<lambda>i. None), fs_calls = []\<rparr>"




definition quorum_manager :: QuorumManager where
  "quorum_manager =
     \<lparr>quorum_node_id = 1, n_replicas = 3, read_quorum = 2, write_quorum = 2,
      enable_read_repair = True\<rparr>"

definition node2 :: NodeInfo where
  "node2 = \<lparr>node_id = 2, address = ''localhost:5001''\<rparr>"

definition node3 :: NodeInfo where
  "node3 = \<lparr>node_id = 3, address = ''localhost:5002''\<rparr>"

definition reads_one_stale :: "string read list" where
  "reads_one_stale = [(node2, ''new'', dict_of [(1, 2)]), (node3, ''old'', dict_of [(1, 1)])]"

definition reads_concurrent :: "string read list" where
  "reads_concurrent = [(node2, ''x'', dict_of [(1, 1)]), (node3, ''y'', dict_of [(2, 1)])]"

definition takeover_newer :: "string ChordStorage" where
  "takeover_newer =
     \<lparr>storage_node_id = 50, enable_persistence = True,
      primary_dir = ''storage/node_50/primary'', backup_dir = ''storage/node_50/backup'',
      primary_store = dict_of [(''test'', (''v_old'', dict_of [(35, 1)]))],
      backup_store = dict_of [(35, dict_of [(''test'', (''v_new'', dict_of [(35, 2)]))])],
      fs_answers = (\<lambda>i. None), fs_calls = []\<rparr>"

definition takeover_concurrent :: "string ChordStorage" where
  "takeover_concurrent =
     \<lparr>storage_node_id = 50, enable_persistence = True,
      primary_dir = ''storage/node_50/primary'', backup_dir = ''storage/node_50/backup'',
      primary_store = dict_of [(''test'', (''v_local'', dict_of [(50, 1)]))],
      backup_store = dict_of [(35, dict_of [(''test'', (''v_backup'', dict_of [(35, 1)]))])],
      fs_answers = (\<lambda>i. None), fs_calls = []\<rparr>"

text \<open>A take-over of two keys where the file of the first cannot be written.\<close>

definition takeover_no_directory :: "string ChordStorage" where
  "takeover_no_directory =
     \<lparr>storage_node_id = 50, enable_persistence = True,
      primary_dir = ''storage/node_50/primary'', backup_dir = ''storage/node_50/backup'',
      primary_store = DAList.empty,
      backup_store =
        dict_of [(35, dict_of [(''a/b'', (''v1'', dict_of [(35, 1)])),
                               (''c'', (''v2'', dict_of [(35, 1)]))])],
      fs_answers = (\<lambda>i. Some FileNotFoundError), fs_calls = []\<rparr>"

definition failing_handler :: "unit Message \<Rightarrow> unit handler_outcome" where
  "failing_handler msg = Raises ''key not found''"

definition network_manager :: "unit NetworkManager" where
  "network_manager =
     \<lparr>network_node_id = 10, network_address = ''localhost:5000'',
      handlers = dict_of [(MessageType.GET, failing_handler)],
      pending = dict_of [(''req-7'', ())]\<rparr>"

definition get_msg :: "unit Message" where
  "get_msg =
     \<lparr>msg_type = MessageType.GET, sender_id = 20, sender_address = ''localhost:5001'',
      msg_id = ''req-1'', data = dict_of [(''key'', Str ''k'')]\<rparr>"

definition ping_msg :: "unit Message" where
  "ping_msg =
     \<lparr>msg_type = PING, sender_id = 20, sender_address = ''localhost:5001'',
      msg_id = ''req-2'', data = DAList.empty\<rparr>"

definition node10 :: NodeInfo where
  "node10 = \<lparr>node_id = 10, address = ''localhost:5000''\<rparr>"

definition node35 :: NodeInfo where
  "node35 = \<lparr>node_id = 35, address = ''localhost:5001''\<rparr>"

definition node50_info :: NodeInfo where
  "node50_info = \<lparr>node_id = 50, address = ''localhost:5002''\<rparr>"

definition ring :: FingerTable where
  "ring =
     \<lparr>ft_node_id = 35, m = 6, fingers = [None, None, None, None, None, None],
      all_nodes = [node10, node35, node50_info]\<rparr>"

section \<open>Facts about dictionaries and clocks\<close>

lemma dict_get_update:
  "dict_get (DAList.update k v d) k' dflt = (if k = k' then v else dict_get d k' dflt)"
  by (simp add: dict_get_def DAList.lookup_update)


lemma dict_get_notin_keys: "k \<notin> set (keys d) \<Longrightarrow> dict_get d k dflt = dflt"
proof -
  assume "k \<notin> set (keys d)"
  then have "map_of (DAList.impl_of d) k = None"
    by (simp add: keys_def map_of_eq_None_iff)
  then show ?thesis
    by (simp add: dict_get_def DAList.lookup.rep_eq)
qed

lemma dict_get_items:
  "(k, v) \<in> set (items d) \<Longrightarrow> dict_get d k dflt = v"
  by (simp add: items_def dict_get_def DAList.lookup.rep_eq)

lemma update_fresh_key:
  "k \<notin> fst ` set al \<Longrightarrow> AList.update k v al = al @ [(k, v)]"
  by (induction al) auto

lemma impl_of_dict_insert_all:
  "distinct (map fst kvs) \<Longrightarrow> set (map fst kvs) \<inter> set (keys d) = {} \<Longrightarrow>
   DAList.impl_of (dict_insert_all d kvs) = DAList.impl_of d @ kvs"
proof (induction kvs arbitrary: d)
  case Nil
  then show ?case by simp
next
  case (Cons kv kvs)
  obtain k v where kv: "kv = (k, v)" by (cases kv)
  from Cons.prems kv have notin: "k \<notin> fst ` set (DAList.impl_of d)"
    by (auto simp: keys_def)
  have upd: "DAList.impl_of (DAList.update k v d) = DAList.impl_of d @ [(k, v)]"
    using notin by (simp add: DAList.update.rep_eq update_fresh_key)
  have disj: "set (map fst kvs) \<inter> set (keys (DAList.update k v d)) = {}"
    using Cons.prems kv by (auto simp: keys_def upd)
  have "DAList.impl_of (dict_insert_all (DAList.update k v d) kvs)
        = DAList.impl_of (DAList.update k v d) @ kvs"
    using Cons.IH [OF _ disj] Cons.prems by simp
  then show ?case by (simp add: kv upd)
qed

lemma dict_of_items: "dict_of (items d) = d"
proof -
  have "DAList.impl_of (dict_of (items d)) = DAList.impl_of d"
    unfolding dict_of_def items_def
    by (subst impl_of_dict_insert_all) (simp_all add: keys_def DAList.empty.rep_eq)
  then show ?thesis by (simp add: DAList.impl_of_inject)
qed

lemma VectorClock_id: "VectorClock clock = clock"
  by (simp add: VectorClock_def dict_of_items)


lemma get_increment:
  "dict_get (increment c n) i 0 = dict_get c i 0 + (if i = n then 1 else 0)"
  by (auto simp: increment_def dict_get_update)




lemma happens_before_loop_fst:
  "fst (happens_before_loop a b ns acc) \<longleftrightarrow> (\<forall>n \<in> set ns. dict_get a n 0 \<le> dict_get b n 0)"
  by (induction ns arbitrary: acc) (auto simp: Let_def)

lemma happens_before_loop_snd:
  "fst (happens_before_loop a b ns acc) \<Longrightarrow>
   snd (happens_before_loop a b ns acc) \<longleftrightarrow>
     (acc \<or> (\<exists>n \<in> set ns. dict_get a n 0 < dict_get b n 0))"
  by (induction ns arbitrary: acc) (auto simp: Let_def split: if_splits)

lemma set_all_nodes_of: "set (all_nodes_of a b) = set (keys a) \<union> set (keys b)"
  by (simp add: all_nodes_of_def)

lemma get_outside_all_nodes:
  "i \<notin> set (all_nodes_of a b) \<Longrightarrow> dict_get a i 0 = 0 \<and> dict_get b i 0 = 0"
  by (simp add: set_all_nodes_of dict_get_notin_keys)

lemma happens_before_iff:
  "happens_before a b \<longleftrightarrow>
     (\<forall>i. dict_get a i 0 \<le> dict_get b i 0) \<and> (\<exists>i. dict_get a i 0 < dict_get b i 0)"
proof -
  let ?ns = "all_nodes_of a b"
  have le: "(\<forall>n \<in> set ?ns. dict_get a n 0 \<le> dict_get b n 0) \<longleftrightarrow>
            (\<forall>i. dict_get a i 0 \<le> dict_get b i 0)"
    using get_outside_all_nodes [of _ a b] by (metis order_refl)
  have lt: "(\<exists>n \<in> set ?ns. dict_get a n 0 < dict_get b n 0) \<longleftrightarrow>
            (\<exists>i. dict_get a i 0 < dict_get b i 0)"
    using get_outside_all_nodes [of _ a b] by (metis less_irrefl)
  show ?thesis
    unfolding happens_before_def
    using happens_before_loop_fst [of a b ?ns False] happens_before_loop_snd [of a b ?ns False]
    by (auto simp: le lt split: prod.splits)
qed

lemma dominates_loop_iff:
  "dominates_loop a b ns \<longleftrightarrow> (\<forall>n \<in> set ns. dict_get b n 0 \<le> dict_get a n 0)"
  by (induction ns) auto

lemma dominates_iff: "dominates a b \<longleftrightarrow> (\<forall>i. dict_get b i 0 \<le> dict_get a i 0)"
  unfolding dominates_def dominates_loop_iff
  using get_outside_all_nodes [of _ a b] by (metis order_refl)

lemma eq_loop_iff:
  "eq_loop a b ns \<longleftrightarrow> (\<forall>n \<in> set ns. dict_get a n 0 = dict_get b n 0)"
  by (induction ns) auto

lemma vc_eq_iff: "vc_eq a b \<longleftrightarrow> (\<forall>i. dict_get a i 0 = dict_get b i 0)"
  unfolding vc_eq_def eq_loop_iff
  using get_outside_all_nodes [of _ a b] by metis


lemma happens_before_increment: "happens_before c (increment c n)"
  unfolding happens_before_iff get_increment
  by (auto intro: exI [of _ n])

lemma happens_before_trans:
  "happens_before a b \<Longrightarrow> happens_before b c \<Longrightarrow> happens_before a c"
  unfolding happens_before_iff
  by (meson order_trans order_less_le_trans)

lemma happens_before_irrefl: "\<not> happens_before a a"
  by (simp add: happens_before_iff)

lemmas eval_dict = keys_def items_def dict_of_def DAList.update.rep_eq DAList.empty.rep_eq
  dict_get_def DAList.lookup_update all_nodes_of_def happens_before_def Let_def

section \<open>Serialisation of vector clocks\<close>

lemma digit_of_char_of_digit: "d < 10 \<Longrightarrow> digit_of_char (char_of_digit d) = Some d"
proof -
  assume "d < 10"
  then have "d \<in> {0, 1, 2, 3, 4, 5, 6, 7, 8, 9}" by auto
  then show ?thesis
    by (auto simp: digit_of_char_def char_of_digit_def Let_def)
qed

lemma digit_not_special:
  "digit_of_char c = Some x \<Longrightarrow>
   c \<noteq> CHR ''_'' \<and> c \<noteq> CHR ''-'' \<and> c \<noteq> CHR ''+'' \<and> \<not> is_space c"
  by (auto simp: digit_of_char_def is_space_def Let_def split: if_splits)

lemma str_nat_digits: "c \<in> set (str_nat n) \<Longrightarrow> \<exists>x. digit_of_char c = Some x"
proof (induction n rule: str_nat.induct)
  case (1 n)
  show ?case
  proof (cases "n < 10")
    case True
    from "1.prems" True have "c = char_of_digit n"
      by (subst (asm) str_nat.simps) simp
    with True show ?thesis
      by (simp add: digit_of_char_of_digit)
  next
    case False
    have "n mod 10 < 10" by simp
    then have last: "digit_of_char (char_of_digit (n mod 10)) = Some (n mod 10)"
      by (rule digit_of_char_of_digit)
    from "1.prems" False
    have "c \<in> set (str_nat (n div 10)) \<or> c = char_of_digit (n mod 10)"
      by (subst (asm) str_nat.simps) auto
    then show ?thesis
      using "1.IH" [OF False] last by auto
  qed
qed

lemma str_nat_nonempty: "str_nat n \<noteq> []"
  by (subst str_nat.simps) simp

lemma parse_digits_snoc:
  "\<forall>c \<in> set xs. \<exists>x. digit_of_char c = Some x \<Longrightarrow> d < 10 \<Longrightarrow>
   parse_digits acc (xs @ [char_of_digit d]) =
     map_option (\<lambda>m. m * 10 + d) (parse_digits acc xs)"
proof (induction xs arbitrary: acc)
  case Nil
  obtain x where "digit_of_char (char_of_digit d) = Some x" "x = d"
    using Nil.prems digit_of_char_of_digit by blast
  then show ?case
    using digit_not_special [of "char_of_digit d" d] by simp
next
  case (Cons c cs)
  then obtain x where x: "digit_of_char c = Some x" by auto
  then have "c \<noteq> CHR ''_''" using digit_not_special by blast
  then show ?case
    using Cons x by simp
qed

lemma parse_nat_str_nat: "parse_nat (str_nat n) = Some n"
proof (induction n rule: str_nat.induct)
  case (1 n)
  show ?case
  proof (cases "n < 10")
    case True
    then show ?thesis
      by (subst str_nat.simps) (simp add: parse_nat_def digit_of_char_of_digit)
  next
    case False
    obtain c cs where s: "str_nat (n div 10) = c # cs"
      using str_nat_nonempty [of "n div 10"] by (cases "str_nat (n div 10)") auto
    obtain x where x: "digit_of_char c = Some x"
      using str_nat_digits [of c "n div 10"] s by auto
    have digs: "\<forall>c \<in> set cs. \<exists>x. digit_of_char c = Some x"
      using str_nat_digits [of _ "n div 10"] s by auto
    have ih: "parse_digits x cs = Some (n div 10)"
      using "1.IH" [OF False] s x by (simp add: parse_nat_def)
    have "str_nat n = c # (cs @ [char_of_digit (n mod 10)])"
      using False s by (subst str_nat.simps) simp
    then have "parse_nat (str_nat n) = parse_digits x (cs @ [char_of_digit (n mod 10)])"
      using x by (simp add: parse_nat_def)
    also have "\<dots> = map_option (\<lambda>m. m * 10 + n mod 10) (parse_digits x cs)"
      using digs by (intro parse_digits_snoc) simp_all
    also have "\<dots> = Some n"
      using ih by simp
    finally show ?thesis .
  qed
qed

lemma strip_no_space: "\<forall>c \<in> set s. \<not> is_space c \<Longrightarrow> strip s = s"
proof -
  assume a: "\<forall>c \<in> set s. \<not> is_space c"
  have dw: "dropWhile is_space xs = xs" if "\<forall>c \<in> set xs. \<not> is_space c" for xs
    using that by (cases xs) auto
  show ?thesis
    using a by (simp add: strip_def dw)
qed

lemma py_int_py_str: "py_int (py_str i) = Inr i"
proof (cases "i < 0")
  case True
  let ?s = "str_nat (nat (- i))"
  have "\<not> is_space (CHR ''-'')" by (simp add: is_space_def)
  moreover have "\<forall>c \<in> set ?s. \<not> is_space c"
    using str_nat_digits [of _ "nat (- i)"] digit_not_special by blast
  ultimately have nosp: "\<forall>c \<in> set (CHR ''-'' # ?s). \<not> is_space c"
    by simp
  have "strip (py_str i) = CHR ''-'' # ?s"
    using True strip_no_space [OF nosp] by (simp add: py_str_def)
  then show ?thesis
    using True by (simp add: py_int_def parse_nat_str_nat)
next
  case False
  let ?s = "str_nat (nat i)"
  obtain c cs where s: "?s = c # cs"
    using str_nat_nonempty [of "nat i"] by (cases ?s) auto
  obtain x where x: "digit_of_char c = Some x"
    using str_nat_digits [of c "nat i"] s by auto
  have nosp: "\<forall>c \<in> set ?s. \<not> is_space c"
    using str_nat_digits [of _ "nat i"] digit_not_special by blast
  have st: "strip (py_str i) = c # cs"
    using False strip_no_space [OF nosp] s by (simp add: py_str_def)
  have "parse_nat (c # cs) = Some (nat i)"
    using parse_nat_str_nat [of "nat i"] s by simp
  then show ?thesis
    using False digit_not_special [OF x] by (simp add: py_int_def st)
qed

lemma inj_py_str: "inj py_str"
proof (rule injI)
  fix a b assume "py_str a = py_str b"
  then have "py_int (py_str a) = py_int (py_str b)" by simp
  then show "a = b" by (simp add: py_int_py_str)
qed

lemma items_to_dict: "items (to_dict C) = map (\<lambda>(k, v). (py_str k, v)) (items C)"
proof -
  let ?kvs = "map (\<lambda>(k, v). (py_str k, v)) (items C)"
  have m: "map fst ?kvs = map py_str (map fst (items C))"
    by (simp add: case_prod_unfold comp_def)
  have dk: "distinct (map fst (items C))" by (simp add: items_def)
  have i: "inj_on py_str (set (map fst (items C)))"
    using inj_py_str by (rule inj_on_subset) simp
  have "distinct (map py_str (map fst (items C)))"
    using dk i by (subst distinct_map) blast
  then have d: "distinct (map fst ?kvs)"
    by (simp only: m)
  have "DAList.impl_of (dict_insert_all DAList.empty ?kvs) = DAList.impl_of DAList.empty @ ?kvs"
    using d by (intro impl_of_dict_insert_all) (simp_all add: keys_def DAList.empty.rep_eq)
  then show ?thesis
    by (simp add: to_dict_def dict_of_def items_def DAList.empty.rep_eq)
qed

lemma int_keys_py_str: "int_keys (map (\<lambda>(k, v). (py_str k, v)) kvs) = Inr kvs"
  by (induction kvs) (auto simp: py_int_py_str)

lemma from_dict_to_dict: "from_dict (to_dict C) = Inr C"
  by (simp add: from_dict_def items_to_dict int_keys_py_str dict_of_items VectorClock_id)

lemma vc_eq_refl: "vc_eq C C"
  by (simp add: vc_eq_iff)

text \<open>
  C8. For every vector clock \<open>C\<close>, \<^verbatim>\<open>from_dict(to_dict(C))\<close> returns a clock that is
  equal to \<open>C\<close> under \<^verbatim>\<open>__eq__\<close> (it is \<open>C\<close> itself): \<^verbatim>\<open>to_dict\<close> writes every
  integer key with \<^verbatim>\<open>str\<close>, \<^verbatim>\<open>from_dict\<close> reads it back with \<^verbatim>\<open>int\<close>, and \<^verbatim>\<open>__eq__\<close>
  holds exactly when the two clocks agree at every node id, a missing entry counting
  as zero.
\<close>

theorem from_dict_to_dict_roundtrip:
  "from_dict (to_dict C) = Inr C
   \<and> (case from_dict (to_dict C) of Inl e \<Rightarrow> False | Inr C' \<Rightarrow> vc_eq C' C)
   \<and> items (to_dict C) = map (\<lambda>(k, v). (py_str k, v)) (items C)
   \<and> (vc_eq A B \<longleftrightarrow> (\<forall>i. dict_get A i 0 = dict_get B i 0))"
  by (simp add: from_dict_to_dict vc_eq_refl items_to_dict vc_eq_iff)

theorem from_dict_to_dict_roundtrip_witness:
  "to_dict (dict_of [(1, 2), (- 35, 1)]) = dict_of [(''1'', 2), (''-35'', 1)]
   \<and> from_dict (dict_of [(''1'', 2), (''-35'', 1)]) = Inr (dict_of [(1, 2), (- 35, 1)])
   \<and> vc_eq (dict_of [(1, 2), (- 35, 1)]) (dict_of [(- 35, 1), (1, 2), (7, 0)])"
proof -
  have a: "to_dict (dict_of [(1, 2), (- 35, 1)]) = dict_of [(''1'', 2), (''-35'', 1)]"
    by (simp add: to_dict_def eval_dict py_str_def char_of_digit_def str_nat.simps)
  have b: "vc_eq (dict_of [(1, 2), (- 35, 1)]) (dict_of [(- 35, 1), (1, 2), (7, 0)])"
    by (simp add: vc_eq_def eval_dict)
  show ?thesis
    using from_dict_to_dict_roundtrip [of "dict_of [(1, 2), (- 35, 1)]"] a b by simp
qed

section \<open>The latest version among several\<close>

lemma happens_before_less:
  "happens_before a b \<longleftrightarrow> (\<lambda>i. dict_get a i 0) < (\<lambda>i. dict_get b i 0)"
  unfolding happens_before_iff less_fun_def le_fun_def
  by (auto simp: not_le)

lemma happens_before_asym: "happens_before a b \<Longrightarrow> \<not> happens_before b a"
  unfolding happens_before_less by (rule less_not_sym)

lemma happens_before_not_eq: "happens_before a b \<Longrightarrow> \<not> vc_eq a b"
  unfolding happens_before_iff vc_eq_iff by force

lemma is_dominated_iff:
  "is_dominated v others \<longleftrightarrow> (\<exists>other \<in> set others. happens_before v other)"
  by (induction others) (auto dest: happens_before_asym)

lemma collect_candidates_filter:
  "collect_candidates versions rest = filter (\<lambda>v. \<not> is_dominated v versions) rest"
  by (induction rest) auto

lemma maximal_above:
  assumes "v \<in> set vs"
  shows "\<exists>top \<in> set vs. (top = v \<or> happens_before v top) \<and> \<not> is_dominated top vs"
proof -
  let ?f = "\<lambda>c :: vector_clock. (\<lambda>i. dict_get c i 0)"
  have "finite (?f ` set vs)" by simp
  moreover have "?f v \<in> ?f ` set vs" using assms by simp
  ultimately obtain m where m: "m \<in> ?f ` set vs" "?f v \<le> m"
    and mx: "\<forall>b \<in> ?f ` set vs. m \<le> b \<longrightarrow> m = b"
    using finite_has_maximal2 [of "?f ` set vs" "?f v"] by blast
  from m(1) obtain top where top: "top \<in> set vs" "m = ?f top" by blast
  have nd: "\<not> is_dominated top vs"
  proof
    assume "is_dominated top vs"
    then obtain other where o: "other \<in> set vs" "happens_before top other"
      by (auto simp: is_dominated_iff)
    then have lt: "?f top < ?f other" by (simp add: happens_before_less)
    then have "m \<le> ?f other" using top(2) by simp
    with mx o(1) have "m = ?f other" by blast
    with lt top(2) show False by simp
  qed
  show ?thesis
  proof (cases "?f v = m")
    case True
    have "\<not> is_dominated v vs"
    proof
      assume "is_dominated v vs"
      then obtain other where o: "other \<in> set vs" "happens_before v other"
        by (auto simp: is_dominated_iff)
      then have lt: "?f v < ?f other" by (simp add: happens_before_less)
      then have "m \<le> ?f other" using True by simp
      with mx o(1) have "m = ?f other" by blast
      with lt True show False by simp
    qed
    with assms show ?thesis by blast
  next
    case False
    with m(2) have "?f v < m" by simp
    then have "happens_before v top"
      using top(2) by (simp add: happens_before_less)
    with top(1) nd show ?thesis by blast
  qed
qed

lemma get_latest_version_Some:
  assumes "get_latest_version vs = Some w"
  shows "w \<in> set vs \<and> (\<forall>v \<in> set vs. v = w \<or> happens_before v w)"
proof (cases "length vs = 1")
  case True
  then obtain x where "vs = [x]" by (cases vs) auto
  with assms show ?thesis by (simp add: get_latest_version_def)
next
  case False
  let ?cands = "filter (\<lambda>v. \<not> is_dominated v vs) vs"
  from assms False have len: "length ?cands = 1" and w: "w = ?cands ! 0"
    by (auto simp: get_latest_version_def collect_candidates_filter Let_def split: if_splits)
  from len w have cands: "?cands = [w]"
    by (cases ?cands) auto
  then have "w \<in> set ?cands" by simp
  then have win: "w \<in> set vs" by simp
  have "v = w \<or> happens_before v w" if "v \<in> set vs" for v
  proof -
    from maximal_above [OF that] obtain top where
      top: "top \<in> set vs" "top = v \<or> happens_before v top" "\<not> is_dominated top vs"
      by blast
    then have "top \<in> set ?cands" by simp
    with cands have "top = w" by simp
    with top(2) show ?thesis by blast
  qed
  with win show ?thesis by blast
qed

section \<open>Read repair\<close>

lemma replicas_where_Nil: "replicas_where P [] = []"
  by (simp add: replicas_where_def)

lemma replicas_where_Cons:
  "replicas_where P ((node, val, version) # rest) =
     (if P version then node # replicas_where P rest else replicas_where P rest)"
  by (simp add: replicas_where_def)

lemma stale_loop_stale:
  "snd (stale_loop reads w latest_value acc) = acc @ replicas_where (\<lambda>ver. \<not> vc_eq ver w) reads"
proof (induction reads arbitrary: latest_value acc)
  case Nil
  then show ?case by (simp add: replicas_where_Nil)
next
  case (Cons r reads)
  obtain node val version where r: "r = (node, val, version)" by (cases r)
  show ?case
    by (simp add: r Cons.IH replicas_where_Cons)
qed

lemma replicas_where_cong:
  "(\<And>ver. ver \<in> set (versions_of_reads reads) \<Longrightarrow> P ver = Q ver) \<Longrightarrow>
   replicas_where P reads = replicas_where Q reads"
proof (induction reads)
  case Nil
  then show ?case by (simp add: replicas_where_Nil)
next
  case (Cons r reads)
  obtain node val version where r: "r = (node, val, version)" by (cases r)
  have "P version = Q version"
    using Cons.prems [of version] by (simp add: r versions_of_reads_def)
  moreover have "replicas_where P reads = replicas_where Q reads"
    using Cons.prems by (intro Cons.IH) (simp add: versions_of_reads_def)
  ultimately show ?case
    by (simp add: r replicas_where_Cons)
qed

lemma stale_is_older:
  assumes "get_latest_version (versions_of_reads reads) = Some w"
  shows "replicas_where (\<lambda>ver. \<not> vc_eq ver w) reads
           = replicas_where (\<lambda>ver. happens_before ver w) reads"
proof (rule replicas_where_cong)
  fix ver assume "ver \<in> set (versions_of_reads reads)"
  with get_latest_version_Some [OF assms] have "ver = w \<or> happens_before ver w" by blast
  then show "(\<not> vc_eq ver w) = happens_before ver w"
    using happens_before_not_eq [of ver w] happens_before_irrefl [of w]
    by (auto simp: vc_eq_iff)
qed

lemma quorum_get_enough_reads:
  assumes "replicas \<noteq> []" and "\<not> int (length reads) < read_quorum self"
    and "(case get_latest_version (versions_of_reads reads) of
            Some latest \<Rightarrow> latest
          | None \<Rightarrow> hd (versions_of_reads reads)) = w"
    and "reads \<noteq> []"
  shows "quorum_get self replicas (Returned reads) =
           Inr \<lparr>returned = Some (fst (stale_loop reads w None []), w),
                stale = replicas_where (\<lambda>ver. \<not> vc_eq ver w) reads,
                repaired =
                  (if enable_read_repair self
                      \<and> replicas_where (\<lambda>ver. \<not> vc_eq ver w) reads \<noteq> []
                   then replicas_where (\<lambda>ver. \<not> vc_eq ver w) reads else [])\<rparr>"
proof -
  obtain r rest where reads: "reads = r # rest"
    using assms(4) by (cases reads) auto
  have vs: "map (\<lambda>(_, _, version). version) reads = versions_of_reads reads"
    by (simp add: versions_of_reads_def)
  have ne: "versions_of_reads reads = hd (versions_of_reads reads) # tl (versions_of_reads reads)"
    by (simp add: versions_of_reads_def reads)
  have pick: "(case get_latest_version (versions_of_reads reads) of
                 Some latest \<Rightarrow> Inr latest
               | None \<Rightarrow>
                   (case versions_of_reads reads of
                      [] \<Rightarrow> Inl IndexError
                    | first # _ \<Rightarrow> Inr first)) = (Inr w :: py_error + vector_clock)"
  proof (cases "get_latest_version (versions_of_reads reads)")
    case None
    with assms(3) have "hd (versions_of_reads reads) = w" by simp
    with None ne show ?thesis
      by (cases "versions_of_reads reads") simp_all
  next
    case (Some latest)
    with assms(3) show ?thesis by simp
  qed
  have st: "snd (stale_loop reads w None []) = replicas_where (\<lambda>ver. \<not> vc_eq ver w) reads"
    using stale_loop_stale [of reads w None "[]"] by simp
  show ?thesis
    unfolding quorum_get_def
    using assms(1,2) st by (auto simp: vs pick Let_def split: prod.splits)
qed

text \<open>
  C3. When at least \<open>R\<close> responses are gathered, \<^verbatim>\<open>quorum_get\<close> marks for read repair
  exactly the replicas whose returned version is not equal to the winning version, so
  a replica that returned the winning version is never marked. When
  \<^verbatim>\<open>get_latest_version\<close> finds a latest version, that version wins and the marked
  replicas are exactly those whose version is strictly older. When it reports a
  conflict, the first version received wins, and a replica whose version is concurrent
  with it is marked too. With read repair enabled the marked replicas are the ones
  handed to \<^verbatim>\<open>repair_replicas\<close>.
\<close>

theorem quorum_get_marks_differing_replicas:
  assumes "replicas \<noteq> []"
    and "1 \<le> read_quorum self"
    and "read_quorum self \<le> int (length reads)"
  shows "\<exists>latest_value w.
           quorum_get self replicas (Returned reads) =
             Inr \<lparr>returned = Some (latest_value, w),
                  stale = replicas_where (\<lambda>ver. \<not> vc_eq ver w) reads,
                  repaired =
                    (if enable_read_repair self
                     then replicas_where (\<lambda>ver. \<not> vc_eq ver w) reads else [])\<rparr>
           \<and> (case get_latest_version (versions_of_reads reads) of
                 Some latest \<Rightarrow>
                   w = latest
                   \<and> replicas_where (\<lambda>ver. \<not> vc_eq ver w) reads
                       = replicas_where (\<lambda>ver. happens_before ver w) reads
               | None \<Rightarrow> w = hd (versions_of_reads reads))"
proof -
  let ?w = "case get_latest_version (versions_of_reads reads) of
              Some latest \<Rightarrow> latest
            | None \<Rightarrow> hd (versions_of_reads reads)"
  from assms(2,3) have ne: "reads \<noteq> []" by auto
  from assms(3) have enough: "\<not> int (length reads) < read_quorum self" by simp
  have run: "quorum_get self replicas (Returned reads) =
          Inr \<lparr>returned = Some (fst (stale_loop reads ?w None []), ?w),
               stale = replicas_where (\<lambda>ver. \<not> vc_eq ver ?w) reads,
               repaired =
                 (if enable_read_repair self
                  then replicas_where (\<lambda>ver. \<not> vc_eq ver ?w) reads else [])\<rparr>"
    using quorum_get_enough_reads [OF assms(1) enough refl ne] by auto
  have order: "case get_latest_version (versions_of_reads reads) of
                 Some latest \<Rightarrow>
                   ?w = latest
                   \<and> replicas_where (\<lambda>ver. \<not> vc_eq ver ?w) reads
                       = replicas_where (\<lambda>ver. happens_before ver ?w) reads
               | None \<Rightarrow> ?w = hd (versions_of_reads reads)"
  proof (cases "get_latest_version (versions_of_reads reads)")
    case None
    then show ?thesis by simp
  next
    case (Some latest)
    then show ?thesis using stale_is_older [OF Some] by simp
  qed
  from run order show ?thesis by blast
qed

lemma older_1_2: "happens_before (dict_of [(1, 1)]) (dict_of [(1, 2)])"
  by (simp add: eval_dict)

lemma not_older_2_1: "\<not> happens_before (dict_of [(1, 2)]) (dict_of [(1, 1)])"
  by (simp add: eval_dict)

lemma concurrent_1_2:
  "\<not> happens_before (dict_of [(1, 1)]) (dict_of [(2, 1)])"
  "\<not> happens_before (dict_of [(2, 1)]) (dict_of [(1, 1)])"
  by (simp_all add: eval_dict)

lemma latest_one_stale:
  "get_latest_version (versions_of_reads reads_one_stale) = Some (dict_of [(1, 2)])"
  by (simp add: versions_of_reads_def reads_one_stale_def get_latest_version_def
      older_1_2 not_older_2_1 happens_before_irrefl)

lemma latest_concurrent:
  "get_latest_version (versions_of_reads reads_concurrent) = None"
  by (simp add: versions_of_reads_def reads_concurrent_def get_latest_version_def
      concurrent_1_2 happens_before_irrefl)

theorem quorum_get_marks_differing_replicas_witness:
  "[node2, node3] \<noteq> []
   \<and> 1 \<le> read_quorum quorum_manager
   \<and> read_quorum quorum_manager \<le> int (length reads_one_stale)
   \<and> get_latest_version (versions_of_reads reads_one_stale) = Some (dict_of [(1, 2)])
   \<and> replicas_where (\<lambda>ver. happens_before ver (dict_of [(1, 2)])) reads_one_stale = [node3]
   \<and> (\<exists>latest_value.
         quorum_get quorum_manager [node2, node3] (Returned reads_one_stale) =
           Inr \<lparr>returned = Some (latest_value, dict_of [(1, 2)]),
                stale = [node3], repaired = [node3]\<rparr>)"
proof -
  have h2: "1 \<le> read_quorum quorum_manager"
    and en: "enable_read_repair quorum_manager"
    by (simp_all add: quorum_manager_def)
  have h3: "read_quorum quorum_manager \<le> int (length reads_one_stale)"
    by (simp add: quorum_manager_def reads_one_stale_def)
  have older: "replicas_where (\<lambda>ver. happens_before ver (dict_of [(1, 2)])) reads_one_stale
                 = [node3]"
    by (simp add: reads_one_stale_def replicas_where_Cons replicas_where_Nil older_1_2
        happens_before_irrefl)
  from quorum_get_marks_differing_replicas [of "[node2, node3]" quorum_manager reads_one_stale]
    h2 h3
  obtain latest_value w where
    run: "quorum_get quorum_manager [node2, node3] (Returned reads_one_stale) =
             Inr \<lparr>returned = Some (latest_value, w),
                  stale = replicas_where (\<lambda>ver. \<not> vc_eq ver w) reads_one_stale,
                  repaired =
                    (if enable_read_repair quorum_manager
                     then replicas_where (\<lambda>ver. \<not> vc_eq ver w) reads_one_stale else [])\<rparr>"
    and w: "w = dict_of [(1, 2)]"
    and st: "replicas_where (\<lambda>ver. \<not> vc_eq ver w) reads_one_stale
               = replicas_where (\<lambda>ver. happens_before ver w) reads_one_stale"
    by (auto simp: latest_one_stale)
  from run w st older en
  have "quorum_get quorum_manager [node2, node3] (Returned reads_one_stale) =
           Inr \<lparr>returned = Some (latest_value, dict_of [(1, 2)]),
                stale = [node3], repaired = [node3]\<rparr>"
    by simp
  with h2 h3 older show ?thesis
    by (simp add: latest_one_stale)
qed

theorem quorum_get_repairs_concurrent_counterexample:
  "quorum_get quorum_manager [node2, node3] (Returned reads_concurrent) =
     Inr \<lparr>returned = Some (Some ''x'', dict_of [(1, 1)]), stale = [node3], repaired = [node3]\<rparr>
   \<and> \<not> happens_before (dict_of [(2, 1)]) (dict_of [(1, 1)])
   \<and> concurrent_with (dict_of [(2, 1)]) (dict_of [(1, 1)])
   \<and> replicas_where (\<lambda>ver. happens_before ver (dict_of [(1, 1)])) reads_concurrent = []"
proof -
  have eq: "vc_eq (dict_of [(1, 1)]) (dict_of [(1, 1)])"
    "\<not> vc_eq (dict_of [(2, 1)]) (dict_of [(1, 1)])"
    by (simp_all add: vc_eq_def eval_dict)
  have "quorum_get quorum_manager [node2, node3] (Returned reads_concurrent) =
     Inr \<lparr>returned = Some (Some ''x'', dict_of [(1, 1)]), stale = [node3], repaired = [node3]\<rparr>"
    using latest_concurrent
    by (simp add: quorum_get_def quorum_manager_def versions_of_reads_def
        reads_concurrent_def eq)
  moreover have "replicas_where (\<lambda>ver. happens_before ver (dict_of [(1, 1)])) reads_concurrent = []"
    by (simp add: reads_concurrent_def replicas_where_Cons replicas_where_Nil concurrent_1_2
        happens_before_irrefl)
  ultimately show ?thesis
    by (simp add: concurrent_with_def concurrent_1_2)
qed

section \<open>Replicas that agree\<close>

text \<open>
  C2. \<^verbatim>\<open>get_latest_version\<close> is meant to return the one maximal version and \<^verbatim>\<open>None\<close>
  only on concurrent versions. Run on two replicas that hold the same version
  \<open>{1: 1}\<close>, it keeps both entries as candidates, neither being dominated, and
  returns \<^verbatim>\<open>None\<close>, although the set of maximal versions is the single version
  \<open>{1: 1}\<close>, which dominates the other entry. With an older version received first,
  \<^verbatim>\<open>quorum_get\<close> then takes that older version as the winner.
\<close>

theorem get_latest_version_equal_versions:
  "get_latest_version [dict_of [(1, 1)], dict_of [(1, 1)]] = None
   \<and> collect_candidates [dict_of [(1, 1)], dict_of [(1, 1)]] [dict_of [(1, 1)], dict_of [(1, 1)]]
       = [dict_of [(1, 1)], dict_of [(1, 1)]]
   \<and> set [dict_of [(1, 1)], dict_of [(1, 1)] :: vector_clock] = {dict_of [(1, 1)]}
   \<and> vc_eq (dict_of [(1, 1)]) (dict_of [(1, 1)])
   \<and> dominates (dict_of [(1, 1)]) (dict_of [(1, 1)])
   \<and> get_latest_version [dict_of [(1, 1)]] = Some (dict_of [(1, 1)])
   \<and> get_latest_version [dict_of [(1, 1)], dict_of [(1, 2)], dict_of [(1, 2)]] = None"
  by (simp add: get_latest_version_def happens_before_irrefl vc_eq_iff dominates_iff
      older_1_2 not_older_2_1)

section \<open>Dispatching a received message\<close>

text \<open>
  C5. For a received message that is no reply to a pending request: when no handler is
  registered for its type the dispatcher returns no reply at all (\<^verbatim>\<open>None\<close>, after a
  warning in the log); when the registered handler raises an exception the dispatcher
  returns an ERROR message that carries the text of the exception under \<^verbatim>\<open>error\<close>,
  the id of the request, and this node as sender. The manager itself is unchanged in
  both cases.
\<close>

theorem dispatch_message_without_handler_or_failing:
  assumes "\<not> dict_in (msg_id msg) (pending self)"
  shows "(DAList.lookup (handlers self) (msg_type msg) = None \<longrightarrow>
            dispatch_message self msg
              = \<lparr>manager = self, reply = None, future_result = None\<rparr>)
       \<and> (DAList.lookup (handlers self) (msg_type msg) = Some handler \<and> handler msg = Raises e \<longrightarrow>
            dispatch_message self msg
              = \<lparr>manager = self,
                 reply = Some \<lparr>msg_type = ERROR, sender_id = network_node_id self,
                               sender_address = network_address self, msg_id = msg_id msg,
                               data = dict_of [(''error'', Str e)]\<rparr>,
                 future_result = None\<rparr>)"
  using assms by (simp add: dispatch_message_def create_error_msg_def)

theorem dispatch_message_without_handler_or_failing_witness:
  "\<not> dict_in (msg_id ping_msg) (pending network_manager)
   \<and> DAList.lookup (handlers network_manager) (msg_type ping_msg) = None
   \<and> dispatch_message network_manager ping_msg
       = \<lparr>manager = network_manager, reply = None, future_result = None\<rparr>
   \<and> \<not> dict_in (msg_id get_msg) (pending network_manager)
   \<and> DAList.lookup (handlers network_manager) (msg_type get_msg) = Some failing_handler
   \<and> failing_handler get_msg = Raises ''key not found''
   \<and> reply (dispatch_message network_manager get_msg)
       = Some \<lparr>msg_type = ERROR, sender_id = 10, sender_address = ''localhost:5000'',
               msg_id = ''req-1'', data = dict_of [(''error'', Str ''key not found'')]\<rparr>"
proof -
  have p1: "\<not> dict_in (msg_id ping_msg) (pending network_manager)"
    by (simp add: dict_in_def ping_msg_def network_manager_def dict_of_def)
  have p2: "\<not> dict_in (msg_id get_msg) (pending network_manager)"
    by (simp add: dict_in_def get_msg_def network_manager_def dict_of_def)
  have h1: "DAList.lookup (handlers network_manager) (msg_type ping_msg) = None"
    by (simp add: ping_msg_def network_manager_def dict_of_def)
  have h2: "DAList.lookup (handlers network_manager) (msg_type get_msg) = Some failing_handler"
    by (simp add: get_msg_def network_manager_def dict_of_def)
  have r: "failing_handler get_msg = Raises ''key not found''"
    by (simp add: failing_handler_def)
  have ids: "network_node_id network_manager = 10"
    "network_address network_manager = ''localhost:5000''" "msg_id get_msg = ''req-1''"
    by (simp_all add: network_manager_def get_msg_def)
  from dispatch_message_without_handler_or_failing [OF p1, of failing_handler "''x''"]
    dispatch_message_without_handler_or_failing [OF p2, of failing_handler "''key not found''"]
  show ?thesis
    using p1 p2 h1 h2 r ids by simp
qed

theorem dispatch_message_no_handler_counterexample:
  "\<not> dict_in (msg_id ping_msg) (pending network_manager)
   \<and> DAList.lookup (handlers network_manager) (msg_type ping_msg) = None
   \<and> reply (dispatch_message network_manager ping_msg) = None"
  by (simp add: dispatch_message_def dict_in_def ping_msg_def network_manager_def dict_of_def)

section \<open>Routing on the full ring\<close>

lemma first_at_or_after_None:
  "first_at_or_after nodes identifier = None \<longleftrightarrow> (\<forall>n \<in> set nodes. node_id n < identifier)"
  by (induction nodes) auto

lemma first_at_or_after_Some:
  "first_at_or_after nodes identifier = Some node \<Longrightarrow>
   \<exists>before after. nodes = before @ node # after
      \<and> (\<forall>n \<in> set before. node_id n < identifier) \<and> identifier \<le> node_id node"
proof (induction nodes)
  case Nil
  then show ?case by simp
next
  case (Cons x nodes)
  show ?case
  proof (cases "identifier \<le> node_id x")
    case True
    with Cons.prems have "x = node" by simp
    with True show ?thesis by (intro exI [of _ "[]"] exI [of _ nodes]) simp
  next
    case False
    with Cons.prems have "first_at_or_after nodes identifier = Some node" by simp
    from Cons.IH [OF this] obtain before after where
      "nodes = before @ node # after" "\<forall>n \<in> set before. node_id n < identifier"
      "identifier \<le> node_id node" by blast
    with False show ?thesis
      by (intro exI [of _ "x # before"] exI [of _ after]) auto
  qed
qed

lemma find_successor_from_all_cases:
  assumes "all_nodes self \<noteq> []"
  shows "\<exists>node. find_successor_from_all self identifier = Some node \<and> node \<in> set (all_nodes self)
           \<and> ((\<exists>before after. all_nodes self = before @ node # after
                   \<and> (\<forall>n \<in> set before. node_id n < identifier)
                   \<and> identifier \<le> node_id node)
                \<or> ((\<forall>n \<in> set (all_nodes self). node_id n < identifier)
                    \<and> node = hd (all_nodes self)))"
proof (cases "first_at_or_after (all_nodes self) identifier")
  case None
  obtain first rest where l: "all_nodes self = first # rest"
    using assms by (cases "all_nodes self") auto
  have "find_successor_from_all self identifier = Some first"
    using None l by (simp add: find_successor_from_all_def)
  moreover have "\<forall>n \<in> set (all_nodes self). node_id n < identifier"
    using None by (simp add: first_at_or_after_None)
  ultimately show ?thesis using l by simp
next
  case (Some node)
  obtain first rest where l: "all_nodes self = first # rest"
    using assms by (cases "all_nodes self") auto
  have f: "find_successor_from_all self identifier = Some node"
    using Some l by (simp add: find_successor_from_all_def)
  from first_at_or_after_Some [OF Some] obtain before after where
    sp: "all_nodes self = before @ node # after" "\<forall>n \<in> set before. node_id n < identifier"
      "identifier \<le> node_id node" by blast
  then have "node \<in> set (all_nodes self)" by simp
  with f sp show ?thesis by blast
qed

lemma distance_at_or_after:
  "identifier \<le> i \<Longrightarrow> i < M \<Longrightarrow> 0 \<le> identifier \<Longrightarrow> (i - identifier) mod M = i - (identifier :: int)"
  by (simp add: mod_pos_pos_trivial)

lemma distance_before:
  assumes "i < identifier" and "0 \<le> i" and "identifier < (M :: int)"
  shows "(i - identifier) mod M = i - identifier + M"
proof -
  have "(i - identifier) mod M = (i - identifier + M) mod M" by simp
  also have "\<dots> = i - identifier + M"
    using assms by (intro mod_pos_pos_trivial) simp_all
  finally show ?thesis .
qed

lemma first_known_is_first:
  "first_at_or_after nodes identifier = List.find (\<lambda>n. identifier \<le> node_id n) nodes"
  by (induction nodes) auto

lemma find_successor_from_all_find:
  "all_nodes self \<noteq> [] \<Longrightarrow>
   find_successor_from_all self identifier =
     Some (case List.find (\<lambda>n. identifier \<le> node_id n) (all_nodes self) of
             Some n \<Rightarrow> n
           | None \<Rightarrow> hd (all_nodes self))"
  unfolding find_successor_from_all_def first_known_is_first
  by (cases "all_nodes self") (simp_all split: option.splits)

text \<open>
  C6. With a non-empty full-membership list, \<^verbatim>\<open>find_successor_from_all(id)\<close> returns the
  first node of the list whose id is at least \<open>id\<close>, and the first node of the list when
  there is none. When the list is sorted by node id with distinct ids, and the ids and
  \<open>id\<close> lie in the identifier space \<open>[0, 2^m)\<close>, the node returned is the unique node
  that minimises \<open>(node_id - id) mod 2^m\<close>.
\<close>

theorem find_successor_from_all_minimises_distance:
  assumes "all_nodes self \<noteq> []"
    and "ring_view self"
    and "0 \<le> identifier" and "identifier < max_id self"
  shows "\<exists>node. find_successor_from_all self identifier = Some node
           \<and> node \<in> set (all_nodes self)
           \<and> node = (case List.find (\<lambda>n. identifier \<le> node_id n) (all_nodes self) of
                        Some n \<Rightarrow> n
                      | None \<Rightarrow> hd (all_nodes self))
           \<and> (\<forall>other \<in> set (all_nodes self).
                  other \<noteq> node \<longrightarrow>
                  ring_distance self identifier node < ring_distance self identifier other)"
proof -
  let ?M = "max_id self"
  from assms(2) have srt: "sorted (map node_id (all_nodes self))"
    and dst: "distinct (map node_id (all_nodes self))"
    and rng: "\<forall>n \<in> set (all_nodes self). 0 \<le> node_id n \<and> node_id n < ?M"
    by (simp_all add: ring_view_def list_all_iff)
  obtain first rest where l: "all_nodes self = first # rest"
    using assms(1) by (cases "all_nodes self") auto
  from find_successor_from_all_cases [OF assms(1)] obtain node where
    f: "find_successor_from_all self identifier = Some node"
    and mem: "node \<in> set (all_nodes self)"
    and cs: "(\<exists>before after. all_nodes self = before @ node # after
                   \<and> (\<forall>n \<in> set before. node_id n < identifier)
                   \<and> identifier \<le> node_id node)
             \<or> ((\<forall>n \<in> set (all_nodes self). node_id n < identifier)
                 \<and> node = hd (all_nodes self))"
    by blast
  have shape: "node = (case List.find (\<lambda>n. identifier \<le> node_id n) (all_nodes self) of
                         Some n \<Rightarrow> n | None \<Rightarrow> hd (all_nodes self))"
    using f find_successor_from_all_find [OF assms(1), of "identifier"] by simp
  have least: "ring_distance self identifier node < ring_distance self identifier other"
    if other: "other \<in> set (all_nodes self)" "other \<noteq> node" for other
  proof -
    from rng mem other(1) have b: "0 \<le> node_id node" "node_id node < ?M"
      "0 \<le> node_id other" "node_id other < ?M" by auto
    from cs show ?thesis
    proof
      assume "\<exists>before after. all_nodes self = before @ node # after
                   \<and> (\<forall>n \<in> set before. node_id n < identifier)
                   \<and> identifier \<le> node_id node"
      then obtain before after where sp: "all_nodes self = before @ node # after"
        and bf: "\<forall>n \<in> set before. node_id n < identifier"
        and ge: "identifier \<le> node_id node" by blast
      have dn: "ring_distance self identifier node = node_id node - identifier"
        unfolding ring_distance_def using ge b(2) assms(3) by (rule distance_at_or_after)
      from other sp have "other \<in> set before \<or> other \<in> set after" by auto
      then show ?thesis
      proof
        assume "other \<in> set before"
        with bf have lt: "node_id other < identifier" by simp
        have "ring_distance self identifier other = node_id other - identifier + ?M"
          unfolding ring_distance_def using lt b(3) assms(4) by (rule distance_before)
        with dn b show ?thesis by simp
      next
        assume a: "other \<in> set after"
        from srt sp have "node_id node \<le> node_id other"
          using a by (auto simp: sorted_append)
        moreover from dst sp a have "node_id node \<noteq> node_id other" by auto
        ultimately have gt: "node_id node < node_id other" by simp
        with ge have "identifier \<le> node_id other" by simp
        then have "ring_distance self identifier other = node_id other - identifier"
          unfolding ring_distance_def using b(4) assms(3) by (rule distance_at_or_after)
        with dn gt show ?thesis by simp
      qed
    next
      assume all: "(\<forall>n \<in> set (all_nodes self). node_id n < identifier)
                   \<and> node = hd (all_nodes self)"
      with l have nf: "node = first" by simp
      with other l have "other \<in> set rest" by auto
      with srt dst l nf have gt: "node_id node < node_id other"
        by (auto simp: order_less_le)
      from all mem other(1) have lt: "node_id node < identifier" "node_id other < identifier"
        by auto
      have "ring_distance self identifier node = node_id node - identifier + ?M"
        unfolding ring_distance_def using lt(1) b(1) assms(4) by (rule distance_before)
      moreover have "ring_distance self identifier other = node_id other - identifier + ?M"
        unfolding ring_distance_def using lt(2) b(3) assms(4) by (rule distance_before)
      ultimately show ?thesis using gt by simp
    qed
  qed
  from f mem shape least show ?thesis by blast
qed

lemma ring_facts:
  "all_nodes ring = [node10, node35, node50_info]" "max_id ring = 64"
  "node_id node10 = 10" "node_id node35 = 35" "node_id node50_info = 50"
  by (simp_all add: ring_def max_id_def node10_def node35_def node50_info_def)

theorem find_successor_from_all_minimises_distance_witness:
  "all_nodes ring \<noteq> [] \<and> ring_view ring \<and> (0 :: int) \<le> 55 \<and> 55 < max_id ring
   \<and> find_successor_from_all ring 55 = Some node10
   \<and> ring_distance ring 55 node10 = 19
   \<and> ring_distance ring 55 node35 = 44
   \<and> ring_distance ring 55 node50_info = 59
   \<and> find_successor_from_all ring 40 = Some node50_info"
proof -
  have v: "ring_view ring"
    by (simp add: ring_view_def ring_facts)
  have ne: "all_nodes ring \<noteq> []"
    by (simp add: ring_facts)
  have r: "(0 :: int) \<le> 55" "55 < max_id ring"
    by (simp_all add: ring_facts)
  have f: "find_successor_from_all ring 55 = Some node10"
    "find_successor_from_all ring 40 = Some node50_info"
    by (simp_all add: find_successor_from_all_def ring_facts)
  have d: "ring_distance ring 55 node10 = 19" "ring_distance ring 55 node35 = 44"
    "ring_distance ring 55 node50_info = 59"
    by (simp_all add: ring_distance_def ring_facts)
  from find_successor_from_all_minimises_distance [OF ne v r]
  show ?thesis
    using v ne r f d by simp
qed

section \<open>Replica sets\<close>

lemma index_of_member:
  assumes "node \<in> set nodes" and "distinct (map node_id nodes)"
  shows "\<exists>i. index_of nodes node = Some i \<and> i < length nodes \<and> nodes ! i = node"
  using assms
proof (induction nodes)
  case Nil
  then show ?case by simp
next
  case (Cons y ys)
  show ?case
  proof (cases "node_eq y node")
    case True
    have "y = node"
    proof (rule ccontr)
      assume "y \<noteq> node"
      with Cons.prems(1) have "node \<in> set ys" by auto
      then have "node_id node \<in> set (map node_id ys)" by simp
      with True Cons.prems(2) show False by (simp add: node_eq_def)
    qed
    with True show ?thesis by simp
  next
    case False
    then have "y \<noteq> node" by (auto simp: node_eq_def)
    with Cons.prems have "node \<in> set ys" "distinct (map node_id ys)" by auto
    from Cons.IH [OF this] obtain i where
      "index_of ys node = Some i" "i < length ys" "ys ! i = node" by blast
    with False show ?thesis by simp
  qed
qed

lemma walk_is_rotate:
  assumes "start < length xs" and "k \<le> length xs"
  shows "map (\<lambda>i. xs ! ((start + i) mod length xs)) [0 ..< k] = take k (rotate start xs)"
proof (rule nth_equalityI)
  show "length (map (\<lambda>i. xs ! ((start + i) mod length xs)) [0 ..< k])
          = length (take k (rotate start xs))"
    using assms by simp
next
  fix i assume "i < length (map (\<lambda>i. xs ! ((start + i) mod length xs)) [0 ..< k])"
  then have i: "i < k" by simp
  with assms(2) have "i < length xs" by simp
  then have "rotate start xs ! i = xs ! ((start + i) mod length xs)"
    by (simp add: nth_rotate)
  with i show "map (\<lambda>i. xs ! ((start + i) mod length xs)) [0 ..< k] ! i
                 = take k (rotate start xs) ! i"
    by simp
qed

lemma index_of_split:
  assumes "distinct (map node_id (before @ node # after))"
  shows "index_of (before @ node # after) node = Some (length before)"
  using assms
proof (induction before)
  case Nil
  then show ?case by (simp add: node_eq_def)
next
  case (Cons b before)
  then have "node_id b \<noteq> node_id node" by auto
  with Cons show ?case by (simp add: node_eq_def)
qed

lemma distances_increase_at_or_after:
  assumes "sorted_wrt (<) (map node_id nodes)"
    and "\<forall>n \<in> set nodes. identifier \<le> node_id n \<and> node_id n < max_id self"
    and "0 \<le> identifier"
  shows "sorted_wrt (<) (map (ring_distance self identifier) nodes)"
proof -
  have "sorted_wrt (\<lambda>a b. node_id a < node_id b) nodes"
    using assms(1) by (simp add: sorted_wrt_map)
  then have "sorted_wrt (\<lambda>a b. ring_distance self identifier a < ring_distance self identifier b) nodes"
  proof (rule sorted_wrt_mono_rel [rotated])
    fix a b assume "a \<in> set nodes" "b \<in> set nodes" "node_id a < node_id b"
    with assms(2,3) show "ring_distance self identifier a < ring_distance self identifier b"
      by (simp add: ring_distance_def distance_at_or_after)
  qed
  then show ?thesis by (simp add: sorted_wrt_map)
qed

lemma distances_increase_before:
  assumes "sorted_wrt (<) (map node_id nodes)"
    and "\<forall>n \<in> set nodes. 0 \<le> node_id n \<and> node_id n < identifier"
    and "identifier < max_id self"
  shows "sorted_wrt (<) (map (ring_distance self identifier) nodes)"
proof -
  have "sorted_wrt (\<lambda>a b. node_id a < node_id b) nodes"
    using assms(1) by (simp add: sorted_wrt_map)
  then have "sorted_wrt (\<lambda>a b. ring_distance self identifier a < ring_distance self identifier b) nodes"
  proof (rule sorted_wrt_mono_rel [rotated])
    fix a b assume "a \<in> set nodes" "b \<in> set nodes" "node_id a < node_id b"
    with assms(2,3) show "ring_distance self identifier a < ring_distance self identifier b"
      by (simp add: ring_distance_def distance_before)
  qed
  then show ?thesis by (simp add: sorted_wrt_map)
qed

lemma ring_from_responsible:
  assumes "all_nodes self \<noteq> []" and "distinct (map node_id (all_nodes self))"
  shows "\<exists>before node after.
           all_nodes self = before @ node # after
           \<and> find_successor_from_all self identifier = Some node
           \<and> index_of (all_nodes self) node = Some (length before)
           \<and> rotate (length before) (all_nodes self) = (node # after) @ before
           \<and> (((\<forall>n \<in> set before. node_id n < identifier) \<and> identifier \<le> node_id node)
              \<or> (before = [] \<and> (\<forall>n \<in> set (all_nodes self). node_id n < identifier)))"
proof -
  from find_successor_from_all_cases [OF assms(1)] obtain node where
    f: "find_successor_from_all self identifier = Some node"
    and cs: "(\<exists>before after. all_nodes self = before @ node # after
                   \<and> (\<forall>n \<in> set before. node_id n < identifier)
                   \<and> identifier \<le> node_id node)
             \<or> ((\<forall>n \<in> set (all_nodes self). node_id n < identifier)
                 \<and> node = hd (all_nodes self))"
    by blast
  from cs obtain before after where sp: "all_nodes self = before @ node # after"
    and side: "((\<forall>n \<in> set before. node_id n < identifier) \<and> identifier \<le> node_id node)
               \<or> (before = [] \<and> (\<forall>n \<in> set (all_nodes self). node_id n < identifier))"
  proof
    assume "\<exists>before after. all_nodes self = before @ node # after
                   \<and> (\<forall>n \<in> set before. node_id n < identifier)
                   \<and> identifier \<le> node_id node"
    then show ?thesis using that by blast
  next
    assume a: "(\<forall>n \<in> set (all_nodes self). node_id n < identifier)
                 \<and> node = hd (all_nodes self)"
    obtain first rest where l: "all_nodes self = first # rest"
      using assms(1) by (cases "all_nodes self") auto
    with a have "all_nodes self = [] @ node # rest" by simp
    with a show ?thesis using that by blast
  qed
  have ix: "index_of (all_nodes self) node = Some (length before)"
    using assms(2) unfolding sp by (rule index_of_split)
  have rot: "rotate (length before) (all_nodes self) = (node # after) @ before"
    unfolding sp by (rule rotate_append)
  from sp f ix rot side show ?thesis by blast
qed

lemma ring_distances_increase:
  assumes "ring_view self"
    and "0 \<le> identifier" and "identifier < max_id self"
    and sp: "all_nodes self = before @ node # after"
    and side: "((\<forall>n \<in> set before. node_id n < identifier) \<and> identifier \<le> node_id node)
               \<or> (before = [] \<and> (\<forall>n \<in> set (all_nodes self). node_id n < identifier))"
  shows "sorted_wrt (<) (map (ring_distance self identifier) ((node # after) @ before))"
proof -
  let ?M = "max_id self"
  from assms(1) have strict: "sorted_wrt (<) (map node_id (all_nodes self))"
    and rng: "\<forall>n \<in> set (all_nodes self). 0 \<le> node_id n \<and> node_id n < ?M"
    by (simp_all add: ring_view_def list_all_iff strict_sorted_iff)
  from strict sp have s1: "sorted_wrt (<) (map node_id before)"
    and s2: "sorted_wrt (<) (map node_id (node # after))"
    and cross: "\<forall>b \<in> set before. \<forall>a \<in> set (node # after). node_id b < node_id a"
    by (auto simp: sorted_wrt_append)
  from s2 have above: "\<forall>a \<in> set (node # after). node_id node \<le> node_id a"
    by auto
  from side show ?thesis
  proof
    assume a: "(\<forall>n \<in> set before. node_id n < identifier) \<and> identifier \<le> node_id node"
    have "\<forall>n \<in> set (node # after). identifier \<le> node_id n \<and> node_id n < ?M"
      using a above rng sp by auto
    from distances_increase_at_or_after [OF s2 this assms(2)]
    have d2: "sorted_wrt (<) (map (ring_distance self identifier) (node # after))" .
    have "\<forall>n \<in> set before. 0 \<le> node_id n \<and> node_id n < identifier"
      using a rng sp by auto
    from distances_increase_before [OF s1 this assms(3)]
    have d1: "sorted_wrt (<) (map (ring_distance self identifier) before)" .
    have "ring_distance self identifier x < ring_distance self identifier y"
      if "x \<in> set (node # after)" "y \<in> set before" for x y
    proof -
      from that a above have "identifier \<le> node_id x" "node_id y < identifier" by auto
      moreover from that rng sp have "node_id x < ?M" "0 \<le> node_id y" by auto
      ultimately show ?thesis
        using assms(2,3) by (simp add: ring_distance_def distance_at_or_after distance_before)
    qed
    with d1 d2 show ?thesis
      by (simp only: map_append sorted_wrt_append set_map) blast
  next
    assume b: "before = [] \<and> (\<forall>n \<in> set (all_nodes self). node_id n < identifier)"
    then have "\<forall>n \<in> set (node # after). 0 \<le> node_id n \<and> node_id n < identifier"
      using rng sp by auto
    from distances_increase_before [OF s2 this assms(3)] b show ?thesis by simp
  qed
qed

text \<open>
  C7. With a non-empty full-membership list of nodes with distinct ids and \<open>n \<ge> 1\<close>,
  \<^verbatim>\<open>get_n_successors(id, n)\<close> returns the first \<open>min(n, number of known nodes)\<close> nodes of
  the list read from the node responsible for \<open>id\<close>, wrapping at the end of the list:
  exactly that many nodes, with pairwise distinct ids, the responsible node first. When
  the list is the sorted ring view and \<open>id\<close> lies in the identifier space, the list read
  that way goes round the ring clockwise from \<open>id\<close>: the distance
  \<open>(node_id - id) mod 2^m\<close> strictly increases along it, so the nodes returned are the
  nearest ones clockwise from \<open>id\<close>, in that order.
\<close>

theorem get_n_successors_is_clockwise_arc:
  assumes "all_nodes self \<noteq> []"
    and "distinct (map node_id (all_nodes self))"
    and "1 \<le> n"
  shows "\<exists>responsible start.
           find_successor_from_all self identifier = Some responsible
           \<and> start < length (all_nodes self)
           \<and> all_nodes self ! start = responsible
           \<and> get_n_successors self identifier n
               = take (min (nat n) (length (all_nodes self))) (rotate start (all_nodes self))
           \<and> get_n_successors self identifier n
               = map (\<lambda>i. all_nodes self ! ((start + i) mod length (all_nodes self)))
                   [0 ..< min (nat n) (length (all_nodes self))]
           \<and> hd (get_n_successors self identifier n) = responsible
           \<and> length (get_n_successors self identifier n) = min (nat n) (length (all_nodes self))
           \<and> distinct (map node_id (get_n_successors self identifier n))
           \<and> (ring_view self \<and> 0 \<le> identifier \<and> identifier < max_id self \<longrightarrow>
                sorted_wrt (<)
                  (map (ring_distance self identifier) (rotate start (all_nodes self)))
                \<and> sorted_wrt (<)
                    (map (ring_distance self identifier) (get_n_successors self identifier n)))"
proof -
  let ?xs = "all_nodes self"
  let ?k = "min (nat n) (length ?xs)"
  from ring_from_responsible [OF assms(1,2)] obtain before responsible after where
    sp: "?xs = before @ responsible # after"
    and f: "find_successor_from_all self identifier = Some responsible"
    and ix: "index_of ?xs responsible = Some (length before)"
    and rot: "rotate (length before) ?xs = (responsible # after) @ before"
    and side: "((\<forall>n \<in> set before. node_id n < identifier) \<and> identifier \<le> node_id responsible)
               \<or> (before = [] \<and> (\<forall>n \<in> set ?xs. node_id n < identifier))"
    by blast
  define start where "start = length before"
  have lt: "start < length ?xs"
    by (subst sp) (simp add: start_def)
  have at: "?xs ! start = responsible"
    by (subst sp) (simp add: start_def)
  have walk: "get_n_successors self identifier n
                = map (\<lambda>i. ?xs ! ((start + i) mod length ?xs)) [0 ..< ?k]"
    using assms(1,3) f ix by (simp add: get_n_successors_def Let_def start_def)
  have arc: "get_n_successors self identifier n = take ?k (rotate start ?xs)"
    unfolding walk using lt by (intro walk_is_rotate) simp_all
  have kpos: "0 < ?k"
    using assms(1,3) by (cases "all_nodes self") (simp_all add: min_def)
  have len: "length (get_n_successors self identifier n) = ?k"
    by (simp add: walk)
  have first: "hd (get_n_successors self identifier n) = responsible"
  proof -
    have "get_n_successors self identifier n \<noteq> []"
    proof
      assume "get_n_successors self identifier n = []"
      then have "length (get_n_successors self identifier n) = 0"
        by simp
      with len kpos show False
        by (simp only:)
    qed
    then have "hd (get_n_successors self identifier n) = get_n_successors self identifier n ! 0"
      by (simp add: hd_conv_nth)
    also have "\<dots> = ?xs ! ((start + 0) mod length ?xs)"
      unfolding walk using kpos by (subst nth_map) simp_all
    also have "\<dots> = responsible"
      using lt at by simp
    finally show ?thesis .
  qed
  have "map node_id (take ?k (rotate start ?xs)) = take ?k (rotate start (map node_id ?xs))"
    by (simp add: take_map rotate_map)
  then have dist: "distinct (map node_id (get_n_successors self identifier n))"
    using assms(2) by (simp add: arc)
  have clockwise:
    "sorted_wrt (<) (map (ring_distance self identifier) (rotate start ?xs))
     \<and> sorted_wrt (<) (map (ring_distance self identifier) (get_n_successors self identifier n))"
    if v: "ring_view self" "0 \<le> identifier" "identifier < max_id self"
  proof -
    from ring_distances_increase [OF v sp side]
    have whole: "sorted_wrt (<) (map (ring_distance self identifier) (rotate start ?xs))"
      by (simp only: rot start_def)
    then have "sorted_wrt (<) (take ?k (map (ring_distance self identifier) (rotate start ?xs)))"
      by (rule sorted_wrt_take)
    then have "sorted_wrt (<) (map (ring_distance self identifier) (get_n_successors self identifier n))"
      by (simp only: arc take_map)
    with whole show ?thesis by simp
  qed
  from f lt at arc walk first len dist clockwise show ?thesis by blast
qed

theorem get_n_successors_is_clockwise_arc_witness:
  "all_nodes ring \<noteq> [] \<and> distinct (map node_id (all_nodes ring)) \<and> (1 :: int) \<le> 2
   \<and> ring_view ring \<and> (0 :: int) \<le> 40 \<and> 40 < max_id ring
   \<and> find_successor_from_all ring 40 = Some node50_info
   \<and> get_n_successors ring 40 2 = [node50_info, node10]
   \<and> get_n_successors ring 40 5 = [node50_info, node10, node35]
   \<and> length (get_n_successors ring 40 2) = min (nat 2) (length (all_nodes ring))
   \<and> map (ring_distance ring 40) (get_n_successors ring 40 2) = [10, 34]
   \<and> sorted_wrt (<) (map (ring_distance ring 40) (get_n_successors ring 40 2))"
proof -
  have ne: "all_nodes ring \<noteq> []" and d: "distinct (map node_id (all_nodes ring))"
    by (simp_all add: ring_facts)
  have v: "ring_view ring" "(0 :: int) \<le> 40" "40 < max_id ring"
    by (simp_all add: ring_view_def ring_facts)
  have f: "find_successor_from_all ring 40 = Some node50_info"
    by (simp add: find_successor_from_all_def ring_facts)
  have u: "[0 ..< 2] = [0, 1 :: nat]" "[0 ..< 3] = [0, 1, 2 :: nat]"
    by (simp_all add: upt_rec)
  have g: "get_n_successors ring 40 2 = [node50_info, node10]"
    "get_n_successors ring 40 5 = [node50_info, node10, node35]"
    by (simp_all add: get_n_successors_def f ring_facts node_eq_def Let_def u)
  have dd: "map (ring_distance ring 40) [node50_info, node10] = [10, 34]"
    by (simp add: ring_distance_def ring_facts)
  from get_n_successors_is_clockwise_arc [OF ne d, of 2 40]
  show ?thesis
    using ne d v f g dd by (simp add: ring_facts)
qed

section \<open>Facts about the storage\<close>

lemma do_fs_call_fst:
  "fst (do_fs_call self call) =
     self\<lparr>fs_calls := fs_calls self @ [(call, fs_answers self (length (fs_calls self)))]\<rparr>"
  by (simp add: do_fs_call_def Let_def)

lemma do_fs_call_snd: "snd (do_fs_call self call) = fs_answers self (length (fs_calls self))"
  by (simp add: do_fs_call_def Let_def)

lemma save_primary_fst:
  "fst (save_primary self key val version) =
     (if enable_persistence self
      then self\<lparr>fs_calls := fs_calls self @
             [(Write_json (path_join (primary_dir self) (key @ ''.txt''))
                 \<lparr>saved_key = key, saved_value = val, saved_version = to_dict version,
                  saved_type = ''primary'', saved_primary_node_id = None\<rparr>,
               fs_answers self (length (fs_calls self)))]\<rparr>
      else self)"
  by (simp add: save_primary_def Let_def do_fs_call_fst)

lemma save_primary_snd: "snd (save_primary self key val version) = save_primary_answer self"
  by (simp add: save_primary_def save_primary_answer_def Let_def do_fs_call_snd)

lemma save_backup_fst:
  "fst (save_backup self key val version p) =
     (if enable_persistence self
      then self\<lparr>fs_calls := fs_calls self @
             (Makedirs (path_join (backup_dir self) (''node_'' @ py_str p)),
              fs_answers self (length (fs_calls self)))
             # (case fs_answers self (length (fs_calls self)) of
                  Some e \<Rightarrow> []
                | None \<Rightarrow>
                    [(Write_json
                        (path_join (path_join (backup_dir self) (''node_'' @ py_str p))
                           (key @ ''.txt''))
                        \<lparr>saved_key = key, saved_value = val, saved_version = to_dict version,
                         saved_type = ''backup'', saved_primary_node_id = Some p\<rparr>,
                      fs_answers self (Suc (length (fs_calls self))))])\<rparr>
      else self)"
  by (simp add: save_backup_def Let_def do_fs_call_def split: option.splits)

lemma save_backup_snd: "snd (save_backup self key val version p) = save_backup_answer self"
  by (simp add: save_backup_def save_backup_answer_def Let_def do_fs_call_def
      split: option.splits)

text \<open>The version that \<^verbatim>\<open>put\<close> stores.\<close>

lemma put_primary_store:
  "primary_store (fst (put self key val version_arg)) =
     DAList.update key
       (val, case version_arg of
               Some version \<Rightarrow> version
             | None \<Rightarrow> increment (prior_version self key) (storage_node_id self))
       (primary_store self)"
  by (simp add: put_def prior_version_def VectorClock_id Let_def save_primary_def do_fs_call_def
      split: option.splits prod.splits)

lemma put_outcome:
  "snd (put self key val version_arg) =
     (case save_primary_answer self of
        Some e \<Rightarrow> Inl e
      | None \<Rightarrow>
          Inr (case version_arg of
                 Some version \<Rightarrow> version
               | None \<Rightarrow> increment (prior_version self key) (storage_node_id self)))"
  by (simp add: put_def prior_version_def VectorClock_id Let_def save_primary_def
      save_primary_answer_def do_fs_call_def split: option.splits prod.splits)

lemma put_unchanged:
  "backup_store (fst (put self key val version_arg)) = backup_store self"
  "storage_node_id (fst (put self key val version_arg)) = storage_node_id self"
  "enable_persistence (fst (put self key val version_arg)) = enable_persistence self"
  "primary_dir (fst (put self key val version_arg)) = primary_dir self"
  "backup_dir (fst (put self key val version_arg)) = backup_dir self"
  "fs_answers (fst (put self key val version_arg)) = fs_answers self"
  by (simp_all add: put_def Let_def save_primary_def do_fs_call_def
      split: option.splits prod.splits)

lemma put_fs_calls:
  "fs_calls (fst (put self key val version_arg)) =
     fs_calls self @
       (if enable_persistence self
        then [(Write_json (path_join (primary_dir self) (key @ ''.txt''))
                 \<lparr>saved_key = key, saved_value = val,
                  saved_version =
                    to_dict (case version_arg of
                               Some version \<Rightarrow> version
                             | None \<Rightarrow>
                                 increment (prior_version self key) (storage_node_id self)),
                  saved_type = ''primary'', saved_primary_node_id = None\<rparr>,
               fs_answers self (length (fs_calls self)))]
        else [])"
  by (simp add: put_def prior_version_def VectorClock_id Let_def save_primary_def do_fs_call_def
      split: option.splits prod.splits)

lemma put_prior_version_same:
  "prior_version (fst (put self key val None)) key
     = increment (prior_version self key) (storage_node_id self)"
  by (simp add: prior_version_def put_primary_store)

lemma put_prior_version_other:
  "k \<noteq> key \<Longrightarrow> prior_version (fst (put self key val version_arg)) k = prior_version self k"
  by (simp add: prior_version_def put_primary_store)

lemma put_all_Cons:
  "snd (put_all self ((k, x) # ops)) =
     (k, snd (put self k x None)) # snd (put_all (fst (put self k x None)) ops)"
  by (simp split: prod.splits)

lemma versions_of_Cons:
  "versions_of key ((k, outcome) # rest) =
     (case outcome of
        Inl e \<Rightarrow> versions_of key rest
      | Inr version \<Rightarrow> if k = key then version # versions_of key rest else versions_of key rest)"
  by (cases outcome) simp_all

lemma put_all_above_prior:
  "v \<in> set (versions_of key (snd (put_all self ops))) \<Longrightarrow>
   happens_before (prior_version self key) v"
proof (induction ops arbitrary: self)
  case Nil
  then show ?case by simp
next
  case (Cons op ops)
  obtain k x where op: "op = (k, x)" by (cases op)
  let ?self' = "fst (put self k x None)"
  let ?ver = "increment (prior_version self key) (storage_node_id self)"
  have unfold: "snd (put_all self (op # ops)) = (k, snd (put self k x None)) # snd (put_all ?self' ops)"
    unfolding op by (rule put_all_Cons)
  have step: "happens_before (prior_version self key) ?ver"
    by (rule happens_before_increment)
  show ?case
  proof (cases "k = key")
    case True
    from Cons.prems True
    have "v = ?ver \<or> v \<in> set (versions_of key (snd (put_all ?self' ops)))"
      by (auto simp: unfold versions_of_Cons put_outcome split: option.splits sum.splits)
    then show ?thesis
    proof
      assume "v = ?ver"
      then show ?thesis using step by simp
    next
      assume "v \<in> set (versions_of key (snd (put_all ?self' ops)))"
      then have "happens_before (prior_version ?self' key) v" by (rule Cons.IH)
      then have "happens_before ?ver v"
        using True by (simp add: put_prior_version_same)
      with step show ?thesis by (rule happens_before_trans)
    qed
  next
    case False
    from Cons.prems False have "v \<in> set (versions_of key (snd (put_all ?self' ops)))"
      by (auto simp: unfold versions_of_Cons split: sum.splits)
    then have "happens_before (prior_version ?self' key) v" by (rule Cons.IH)
    then show ?thesis
      using False by (simp add: put_prior_version_other)
  qed
qed

lemma put_all_increasing:
  "sorted_wrt happens_before (versions_of key (snd (put_all self ops)))"
proof (induction ops arbitrary: self)
  case Nil
  then show ?case by simp
next
  case (Cons op ops)
  obtain k x where op: "op = (k, x)" by (cases op)
  let ?self' = "fst (put self k x None)"
  let ?ver = "increment (prior_version self key) (storage_node_id self)"
  have unfold: "snd (put_all self (op # ops)) = (k, snd (put self k x None)) # snd (put_all ?self' ops)"
    unfolding op by (rule put_all_Cons)
  show ?case
  proof (cases "k = key")
    case True
    have "\<forall>v \<in> set (versions_of key (snd (put_all ?self' ops))). happens_before ?ver v"
      using put_all_above_prior [of _ key ?self' ops] True
      by (simp add: put_prior_version_same)
    then show ?thesis
      using Cons.IH [of ?self'] True
      by (simp add: unfold versions_of_Cons put_outcome split: option.splits sum.splits)
  next
    case False
    then show ?thesis
      using Cons.IH [of ?self'] by (simp add: unfold versions_of_Cons split: sum.splits)
  qed
qed

section \<open>Writes to the primary store\<close>

text \<open>
  C9. A call \<^verbatim>\<open>put(key, value)\<close> with no version stores the version the key had in the
  primary store before (the empty clock when absent) with the counter of this node one
  higher and every other counter unchanged; the stored version therefore strictly
  dominates the prior one. The call returns that version when persistence is off or the
  file of the key is written; when the file write raises, the exception leaves \<^verbatim>\<open>put\<close>
  with the version already stored and nothing is returned. In any run of such puts the
  versions returned for one key are strictly increasing in happens-before order.
\<close>

theorem put_increments_own_counter:
  "DAList.lookup (primary_store (fst (put self key val None))) key
     = Some (val, increment (prior_version self key) (storage_node_id self))
   \<and> (\<forall>i. dict_get (increment (prior_version self key) (storage_node_id self)) i 0
          = dict_get (prior_version self key) i 0
            + (if i = storage_node_id self then 1 else 0))
   \<and> happens_before (prior_version self key)
        (increment (prior_version self key) (storage_node_id self))
   \<and> snd (put self key val None)
        = (case save_primary_answer self of
             None \<Rightarrow> Inr (increment (prior_version self key) (storage_node_id self))
           | Some e \<Rightarrow> Inl e)
   \<and> (\<not> enable_persistence self \<longrightarrow>
        snd (put self key val None)
          = Inr (increment (prior_version self key) (storage_node_id self)))
   \<and> (enable_persistence self \<longrightarrow>
        save_primary_answer self = fs_answers self (length (fs_calls self))
        \<and> fs_calls (fst (put self key val None))
            = fs_calls self @
                [(Write_json (path_join (primary_dir self) (key @ ''.txt''))
                    \<lparr>saved_key = key, saved_value = val,
                     saved_version =
                       to_dict (increment (prior_version self key) (storage_node_id self)),
                     saved_type = ''primary'', saved_primary_node_id = None\<rparr>,
                  fs_answers self (length (fs_calls self)))])
   \<and> sorted_wrt happens_before (versions_of key (snd (put_all self ops)))"
proof -
  have "snd (put self key val None)
        = (case save_primary_answer self of
             None \<Rightarrow> Inr (increment (prior_version self key) (storage_node_id self))
           | Some e \<Rightarrow> Inl e)"
    by (simp add: put_outcome split: option.splits)
  moreover have "\<not> enable_persistence self \<longrightarrow> save_primary_answer self = None"
    by (simp add: save_primary_answer_def)
  moreover have "enable_persistence self \<longrightarrow>
        save_primary_answer self = fs_answers self (length (fs_calls self))"
    by (simp add: save_primary_answer_def)
  ultimately show ?thesis
    by (simp add: put_primary_store get_increment happens_before_increment
        put_all_increasing put_fs_calls)
qed

theorem put_increments_own_counter_witness:
  "\<not> enable_persistence node50_fresh
   \<and> snd (put node50_fresh ''test'' ''v1'' None) = Inr (dict_of [(50, 1)])
   \<and> versions_of ''test''
        (snd (put_all node50_fresh [(''test'', ''v1''), (''other'', ''w''), (''test'', ''v2'')]))
      = [dict_of [(50, 1)], dict_of [(50, 2)]]
   \<and> happens_before (dict_of [(50, 1)]) (dict_of [(50, 2)])
   \<and> enable_persistence node50
   \<and> DAList.lookup (primary_store (fst (put node50 ''a'' ''v'' None))) ''a''
       = Some (''v'', dict_of [(50, 2)])
   \<and> snd (put node50 ''a'' ''v'' None) = Inr (dict_of [(50, 2)])
   \<and> fs_calls (fst (put node50 ''a'' ''v'' None))
       = [(Write_json ''storage/node_50/primary/a.txt''
             \<lparr>saved_key = ''a'', saved_value = ''v'',
              saved_version = to_dict (dict_of [(50, 2)]),
              saved_type = ''primary'', saved_primary_node_id = None\<rparr>,
           None)]"
proof -
  have off: "\<not> enable_persistence node50_fresh" "storage_node_id node50_fresh = 50"
    "prior_version node50_fresh k = DAList.empty" for k
    by (simp_all add: node50_fresh_def prior_version_def)
  have on: "enable_persistence node50" "storage_node_id node50 = 50"
    "prior_version node50 ''a'' = dict_of [(50, 1)]" "fs_calls node50 = []"
    "fs_answers node50 i = None" "primary_dir node50 = ''storage/node_50/primary''" for i
    by (simp_all add: node50_def prior_version_def dict_of_def)
  have inc: "increment DAList.empty 50 = dict_of [(50, 1)]"
    "increment (dict_of [(50, 1)]) 50 = dict_of [(50, 2)]"
    by (simp_all add: increment_def dict_of_def dict_get_def DAList.lookup_update
        DAList.alist_eq_iff DAList.update.rep_eq DAList.empty.rep_eq)
  have path: "path_join ''storage/node_50/primary'' ''a.txt''
                = ''storage/node_50/primary/a.txt''"
    by (simp add: path_join_def)
  have first: "snd (put node50_fresh ''test'' ''v1'' None) = Inr (dict_of [(50, 1)])"
    using put_increments_own_counter [of node50_fresh "''test''" "''v1''" "[]"] off inc
    by (simp add: save_primary_answer_def)
  have run: "versions_of ''test''
        (snd (put_all node50_fresh [(''test'', ''v1''), (''other'', ''w''), (''test'', ''v2'')]))
      = [dict_of [(50, 1)], dict_of [(50, 2)]]"
    by (simp add: put_all_Cons put_outcome save_primary_answer_def put_unchanged off inc
        put_prior_version_same put_prior_version_other del: put_all.simps(2))
  have chain: "happens_before (dict_of [(50, 1)]) (dict_of [(50, 2)])"
    using put_increments_own_counter [of node50_fresh "''test''" "''v1''"
        "[(''test'', ''v1''), (''other'', ''w''), (''test'', ''v2'')]"]
    by (simp only: run) simp
  have second: "DAList.lookup (primary_store (fst (put node50 ''a'' ''v'' None))) ''a''
       = Some (''v'', dict_of [(50, 2)])"
    "snd (put node50 ''a'' ''v'' None) = Inr (dict_of [(50, 2)])"
    "fs_calls (fst (put node50 ''a'' ''v'' None))
       = [(Write_json ''storage/node_50/primary/a.txt''
             \<lparr>saved_key = ''a'', saved_value = ''v'',
              saved_version = to_dict (dict_of [(50, 2)]),
              saved_type = ''primary'', saved_primary_node_id = None\<rparr>,
           None)]"
    using put_increments_own_counter [of node50 "''a''" "''v''" "[]"] on inc path
    by (simp_all add: save_primary_answer_def)
  from off(1) first run chain on(1) second show ?thesis by simp
qed

theorem put_raises_after_storing_counterexample:
  "enable_persistence node50_no_directory
   \<and> prior_version node50_no_directory ''a/b'' = DAList.empty
   \<and> storage_node_id node50_no_directory = 50
   \<and> snd (put node50_no_directory ''a/b'' ''v'' None) = Inl FileNotFoundError
   \<and> snd (put node50_no_directory ''a/b'' ''v'' None) \<noteq> Inr (increment DAList.empty 50)
   \<and> DAList.lookup (primary_store (fst (put node50_no_directory ''a/b'' ''v'' None))) ''a/b''
       = Some (''v'', increment DAList.empty 50)
   \<and> map fst (fs_calls (fst (put node50_no_directory ''a/b'' ''v'' None)))
       = [Write_json ''storage/node_50/primary/a/b.txt''
            \<lparr>saved_key = ''a/b'', saved_value = ''v'',
             saved_version = to_dict (increment DAList.empty 50),
             saved_type = ''primary'', saved_primary_node_id = None\<rparr>]"
proof -
  have st: "enable_persistence node50_no_directory" "storage_node_id node50_no_directory = 50"
    "prior_version node50_no_directory ''a/b'' = DAList.empty"
    "fs_calls node50_no_directory = []"
    "fs_answers node50_no_directory i = Some FileNotFoundError"
    "primary_dir node50_no_directory = ''storage/node_50/primary''" for i
    by (simp_all add: node50_no_directory_def node50_def prior_version_def dict_of_def)
  have path: "path_join ''storage/node_50/primary'' ''a/b.txt''
                = ''storage/node_50/primary/a/b.txt''"
    by (simp add: path_join_def)
  show ?thesis
    by (simp add: st path put_outcome put_primary_store put_fs_calls save_primary_answer_def)
qed

section \<open>Frame of the two stores\<close>

lemma put_state:
  "fst (put self key val version_arg) =
     self\<lparr>primary_store :=
            DAList.update key
              (val, case version_arg of
                      Some version \<Rightarrow> version
                    | None \<Rightarrow> increment (prior_version self key) (storage_node_id self))
              (primary_store self),
          fs_calls :=
            fs_calls self @
              (if enable_persistence self
               then [(Write_json (path_join (primary_dir self) (key @ ''.txt''))
                        \<lparr>saved_key = key, saved_value = val,
                         saved_version =
                           to_dict (case version_arg of
                                      Some version \<Rightarrow> version
                                    | None \<Rightarrow>
                                        increment (prior_version self key)
                                          (storage_node_id self)),
                         saved_type = ''primary'', saved_primary_node_id = None\<rparr>,
                      fs_answers self (length (fs_calls self)))]
               else [])\<rparr>"
  by (simp add: put_def prior_version_def VectorClock_id Let_def save_primary_def do_fs_call_def
      split: option.splits prod.splits)

lemma put_backup_state:
  "fst (put_backup self key val version p) =
     self\<lparr>backup_store :=
            DAList.update p
              (DAList.update key (val, version)
                 (case DAList.lookup (backup_store self) p of
                    None \<Rightarrow> DAList.empty
                  | Some b \<Rightarrow> b))
              (backup_store self),
          fs_calls :=
            fs_calls self @
              (if enable_persistence self
               then (Makedirs (path_join (backup_dir self) (''node_'' @ py_str p)),
                     fs_answers self (length (fs_calls self)))
                    # (case fs_answers self (length (fs_calls self)) of
                         Some e \<Rightarrow> []
                       | None \<Rightarrow>
                           [(Write_json
                               (path_join (path_join (backup_dir self) (''node_'' @ py_str p))
                                  (key @ ''.txt''))
                               \<lparr>saved_key = key, saved_value = val,
                                saved_version = to_dict version,
                                saved_type = ''backup'', saved_primary_node_id = Some p\<rparr>,
                             fs_answers self (Suc (length (fs_calls self))))])
               else [])\<rparr>"
  by (simp add: put_backup_def Let_def save_backup_def do_fs_call_def
      split: option.splits prod.splits)


lemma put_backup_unchanged:
  "primary_store (fst (put_backup self key val version p)) = primary_store self"
  "storage_node_id (fst (put_backup self key val version p)) = storage_node_id self"
  "enable_persistence (fst (put_backup self key val version p)) = enable_persistence self"
  by (simp_all add: put_backup_state)

lemma put_backup_other_bucket:
  "q \<noteq> p \<Longrightarrow>
   DAList.lookup (backup_store (fst (put_backup self key val version p))) q
     = DAList.lookup (backup_store self) q"
  by (simp add: put_backup_state)

lemma get_backup_put_backup:
  "get_backup (fst (put_backup self key val version p)) k q =
     (if q = p \<and> k = key then Some (val, version) else get_backup self k q)"
  by (auto simp: put_backup_state get_backup_def DAList.lookup_update split: option.splits)

text \<open>
  C10. Whether it returns or raises, \<^verbatim>\<open>put\<close> writes the entry of its key in the primary
  store and nothing else in memory: every other primary key and the whole backup store
  are as before. \<^verbatim>\<open>put_backup\<close> writes the entry of its key in the bucket of its primary
  and nothing else in memory: the primary store, every other bucket and every other key
  of that bucket are as before. The one other effect is on the file system when
  persistence is on: \<^verbatim>\<open>put\<close> asks for one write, of the file \<^verbatim>\<open><key>.txt\<close> joined to the
  primary directory, and \<^verbatim>\<open>put_backup\<close> for the directory of the primary under the backup
  directory and then, if that succeeds, for one write of \<^verbatim>\<open><key>.txt\<close> joined to it. The
  key is not escaped in these paths.
\<close>

theorem put_and_put_backup_frame:
  "DAList.lookup (primary_store (fst (put self key val version_arg))) key
     = Some (val, case version_arg of
                    Some version \<Rightarrow> version
                  | None \<Rightarrow> increment (prior_version self key) (storage_node_id self))
   \<and> (\<forall>k. k \<noteq> key \<longrightarrow>
          DAList.lookup (primary_store (fst (put self key val version_arg))) k
            = DAList.lookup (primary_store self) k)
   \<and> backup_store (fst (put self key val version_arg)) = backup_store self
   \<and> (\<exists>store calls.
         fst (put self key val version_arg) = self\<lparr>primary_store := store, fs_calls := calls\<rparr>)
   \<and> fs_calls (fst (put self key val version_arg)) =
        fs_calls self @
          (if enable_persistence self
           then [(Write_json (path_join (primary_dir self) (key @ ''.txt''))
                    \<lparr>saved_key = key, saved_value = val,
                     saved_version =
                       to_dict (case version_arg of
                                  Some version \<Rightarrow> version
                                | None \<Rightarrow>
                                    increment (prior_version self key) (storage_node_id self)),
                     saved_type = ''primary'', saved_primary_node_id = None\<rparr>,
                  fs_answers self (length (fs_calls self)))]
           else [])
   \<and> get_backup (fst (put_backup self key val version p)) key p = Some (val, version)
   \<and> primary_store (fst (put_backup self key val version p)) = primary_store self
   \<and> (\<forall>q. q \<noteq> p \<longrightarrow>
          DAList.lookup (backup_store (fst (put_backup self key val version p))) q
            = DAList.lookup (backup_store self) q)
   \<and> (\<forall>k. k \<noteq> key \<longrightarrow>
          get_backup (fst (put_backup self key val version p)) k p = get_backup self k p)
   \<and> (\<exists>store calls.
         fst (put_backup self key val version p) = self\<lparr>backup_store := store, fs_calls := calls\<rparr>)
   \<and> fs_calls (fst (put_backup self key val version p)) =
        fs_calls self @
          (if enable_persistence self
           then (Makedirs (path_join (backup_dir self) (''node_'' @ py_str p)),
                 fs_answers self (length (fs_calls self)))
                # (case fs_answers self (length (fs_calls self)) of
                     Some e \<Rightarrow> []
                   | None \<Rightarrow>
                       [(Write_json
                           (path_join (path_join (backup_dir self) (''node_'' @ py_str p))
                              (key @ ''.txt''))
                           \<lparr>saved_key = key, saved_value = val,
                            saved_version = to_dict version,
                            saved_type = ''backup'', saved_primary_node_id = Some p\<rparr>,
                         fs_answers self (Suc (length (fs_calls self))))])
           else [])"
proof -
  have p1: "\<exists>store calls.
         fst (put self key val version_arg) = self\<lparr>primary_store := store, fs_calls := calls\<rparr>"
    by (subst put_state) blast
  have p2: "\<exists>store calls.
         fst (put_backup self key val version p) = self\<lparr>backup_store := store, fs_calls := calls\<rparr>"
    by (subst put_backup_state) blast
  have p3: "fs_calls (fst (put self key val version_arg)) =
        fs_calls self @
          (if enable_persistence self
           then [(Write_json (path_join (primary_dir self) (key @ ''.txt''))
                    \<lparr>saved_key = key, saved_value = val,
                     saved_version =
                       to_dict (case version_arg of
                                  Some version \<Rightarrow> version
                                | None \<Rightarrow>
                                    increment (prior_version self key) (storage_node_id self)),
                     saved_type = ''primary'', saved_primary_node_id = None\<rparr>,
                  fs_answers self (length (fs_calls self)))]
           else [])"
    by (simp add: put_state)
  have p4: "fs_calls (fst (put_backup self key val version p)) =
        fs_calls self @
          (if enable_persistence self
           then (Makedirs (path_join (backup_dir self) (''node_'' @ py_str p)),
                 fs_answers self (length (fs_calls self)))
                # (case fs_answers self (length (fs_calls self)) of
                     Some e \<Rightarrow> []
                   | None \<Rightarrow>
                       [(Write_json
                           (path_join (path_join (backup_dir self) (''node_'' @ py_str p))
                              (key @ ''.txt''))
                           \<lparr>saved_key = key, saved_value = val,
                            saved_version = to_dict version,
                            saved_type = ''backup'', saved_primary_node_id = Some p\<rparr>,
                         fs_answers self (Suc (length (fs_calls self))))])
           else [])"
    by (simp add: put_backup_state)
  have p5: "DAList.lookup (primary_store (fst (put self key val version_arg))) key
     = Some (val, case version_arg of
                    Some version \<Rightarrow> version
                  | None \<Rightarrow> increment (prior_version self key) (storage_node_id self))"
    "\<forall>k. k \<noteq> key \<longrightarrow>
          DAList.lookup (primary_store (fst (put self key val version_arg))) k
            = DAList.lookup (primary_store self) k"
    "backup_store (fst (put self key val version_arg)) = backup_store self"
    by (simp_all add: put_state)
  have p6: "get_backup (fst (put_backup self key val version p)) key p = Some (val, version)"
    "primary_store (fst (put_backup self key val version p)) = primary_store self"
    "\<forall>q. q \<noteq> p \<longrightarrow>
          DAList.lookup (backup_store (fst (put_backup self key val version p))) q
            = DAList.lookup (backup_store self) q"
    "\<forall>k. k \<noteq> key \<longrightarrow>
          get_backup (fst (put_backup self key val version p)) k p = get_backup self k p"
    by (simp_all add: get_backup_put_backup put_backup_unchanged put_backup_other_bucket)
  from p1 p2 p3 p4 p5 p6 show ?thesis
    by (intro conjI)
qed

lemma py_str_35: "py_str 35 = ''35''"
  by (simp add: py_str_def str_nat.simps char_of_digit_def)

theorem put_and_put_backup_frame_witness:
  "''a'' \<noteq> ''test'' \<and> (35 :: int) \<noteq> 62 \<and> ''b'' \<noteq> ''test''
   \<and> enable_persistence node50
   \<and> DAList.lookup (primary_store (fst (put node50 ''test'' ''v'' None))) ''a''
       = Some (''x'', dict_of [(50, 1)])
   \<and> backup_store (fst (put node50 ''test'' ''v'' None)) = backup_store node50
   \<and> DAList.lookup (backup_store (fst (put_backup node50 ''test'' ''v'' (dict_of [(62, 1)]) 62))) 35
       = Some (dict_of [(''b'', (''y'', dict_of [(35, 1)]))])
   \<and> get_backup (fst (put_backup node50 ''test'' ''v'' (dict_of [(62, 1)]) 35)) ''b'' 35
       = Some (''y'', dict_of [(35, 1)])
   \<and> get_backup (fst (put_backup node50 ''test'' ''v'' (dict_of [(62, 1)]) 35)) ''test'' 35
       = Some (''v'', dict_of [(62, 1)])
   \<and> map fst (fs_calls (fst (put_backup node50 ''b'' ''v'' (dict_of [(35, 2)]) 35)))
       = [Makedirs ''storage/node_50/backup/node_35'',
          Write_json ''storage/node_50/backup/node_35/b.txt''
            \<lparr>saved_key = ''b'', saved_value = ''v'', saved_version = to_dict (dict_of [(35, 2)]),
             saved_type = ''backup'', saved_primary_node_id = Some 35\<rparr>]
   \<and> map fst (fs_calls (fst (put node50 ''../backup/node_35/b'' ''v'' (Some (dict_of [(35, 2)])))))
       = [Write_json ''storage/node_50/primary/../backup/node_35/b.txt''
            \<lparr>saved_key = ''../backup/node_35/b'', saved_value = ''v'',
             saved_version = to_dict (dict_of [(35, 2)]),
             saved_type = ''primary'', saved_primary_node_id = None\<rparr>]"
proof -
  have st: "enable_persistence node50" "fs_calls node50 = []" "fs_answers node50 i = None"
    "primary_dir node50 = ''storage/node_50/primary''"
    "backup_dir node50 = ''storage/node_50/backup''" for i
    by (simp_all add: node50_def)
  have a: "DAList.lookup (primary_store node50) ''a'' = Some (''x'', dict_of [(50, 1)])"
    by (simp add: node50_def dict_of_def)
  have b: "DAList.lookup (backup_store node50) 35
             = Some (dict_of [(''b'', (''y'', dict_of [(35, 1)]))])"
    by (simp add: node50_def dict_of_def)
  have c: "get_backup node50 ''b'' 35 = Some (''y'', dict_of [(35, 1)])"
    by (simp add: get_backup_def b) (simp add: dict_of_def)
  have paths: "path_join ''storage/node_50/backup'' ''node_35'' = ''storage/node_50/backup/node_35''"
    "path_join ''storage/node_50/backup/node_35'' ''b.txt''
       = ''storage/node_50/backup/node_35/b.txt''"
    "path_join ''storage/node_50/primary'' ''../backup/node_35/b.txt''
       = ''storage/node_50/primary/../backup/node_35/b.txt''"
    by (simp_all add: path_join_def)
  show ?thesis
    using put_and_put_backup_frame [of node50 "''test''" "''v''" None "dict_of [(62, 1)]" 62]
      put_and_put_backup_frame [of node50 "''test''" "''v''" None "dict_of [(62, 1)]" 35]
      put_and_put_backup_frame [of node50 "''b''" "''v''" None "dict_of [(35, 2)]" 35]
      put_and_put_backup_frame [of node50 "''../backup/node_35/b''" "''v''"
        "Some (dict_of [(35, 2)])" "dict_of [(35, 2)]" 35]
      a b c st paths py_str_35
    by simp
qed

section \<open>Receiving a replica\<close>







end
